theory Spec2Isabelle
  imports
    Main
    "HOL-Library.Word"
    "HOL-Library.Char_ord"
    "HOL-Library.List_Lexorder"
begin

unbundle bit_operations_syntax

section \<open>Machine types of the Go program\<close>

text \<open>
  The program is compiled for a 64-bit platform: Go's \<open>int\<close> is a signed 64-bit
  integer. A value of type \<open>int\<close> is modelled by the HOL integer it denotes; where the
  program adds two of them, or converts between \<open>int\<close> and \<open>uint64\<close>, the
  wrap-around of the machine is written out (\<open>int_add\<close>, \<open>uint64_of_int\<close>,
  \<open>int_of_uint64\<close>). A \<open>[]byte\<close> is a list of 8-bit words; \<open>len\<close> of a
  slice is an \<open>int\<close>, so every slice the program can hold is shorter than \<open>2 ^ 63\<close>.
\<close>

type_synonym byte = "8 word"
type_synonym uint64 = "64 word"
type_synonym FileMode = "32 word"

definition len :: "'a list \<Rightarrow> int" where
  "len xs = int (length xs)"

definition int_add :: "int \<Rightarrow> int \<Rightarrow> int" where
  "int_add a b = signed_take_bit 63 (a + b)"

definition uint64_of_int :: "int \<Rightarrow> uint64" where
  "uint64_of_int i = word_of_int i"

definition int_of_uint64 :: "uint64 \<Rightarrow> int" where
  "int_of_uint64 w = sint w"

section \<open>Errors\<close>

text \<open>
  Go's \<open>error\<close> interface value is modelled as \<open>error option\<close>: \<open>None\<close> is
  \<open>nil\<close>. \<open>Wrapped msg e\<close> is the value of \<open>fmt.Errorf(msg + ": %w", e)\<close>;
  \<open>errors_Is\<close> follows the chain of wrapped errors as \<open>errors.Is\<close> does.
  \<open>NumError\<close>, \<open>ErrSyntax\<close> and \<open>ErrRange\<close> are the errors of package
  \<open>strconv\<close>, \<open>PathError\<close> the error of the file operations of package \<open>os\<close>.
\<close>

datatype errno = ENOENT | ENOTDIR | EISDIR | EACCES | EINVAL | EIO

text \<open>
  Modelled from the spec: \<open>ErrCorrupt\<close> is used by the source but declared in a file
  that is not part of it; it is the spec's \<open>CorruptError\<close>, a sentinel error value.
\<close>

datatype error =
    ErrCorrupt
  | ErrSyntax
  | ErrRange
  | NumError string string error
  | PathError string string errno
  | Wrapped string error

fun errors_Is :: "error \<Rightarrow> error \<Rightarrow> bool" where
  "errors_Is (Wrapped msg e) target = (Wrapped msg e = target \<or> errors_Is e target)"
| "errors_Is (NumError f s e) target = (NumError f s e = target \<or> errors_Is e target)"
| "errors_Is e target = (e = target)"

section \<open>Configuration\<close>

text \<open>The octal literals 0750 and 0640 of the source are 488 and 416.\<close>

definition DefaultSegmentSize :: int where
  "DefaultSegmentSize = 20 * 1024 * 1024"

definition DefaultDirPerms :: FileMode where
  "DefaultDirPerms = 488"

definition DefaultFilePerms :: FileMode where
  "DefaultFilePerms = 416"

record Config =
  Sync :: bool
  SegmentSize :: int
  DirPerms :: FileMode
  FilePerms :: FileMode

definition DefaultConfig :: Config where
  "DefaultConfig =
     \<lparr>Sync = True, SegmentSize = DefaultSegmentSize,
      DirPerms = DefaultDirPerms, FilePerms = DefaultFilePerms\<rparr>"

text \<open>\<open>Validate\<close> mutates the configuration through its pointer receiver: the model
  returns the configuration after the three assignments.\<close>

definition Validate :: "Config \<Rightarrow> Config" where
  "Validate c0 =
     (let c1 = (if SegmentSize c0 \<le> 0 then c0\<lparr>SegmentSize := DefaultSegmentSize\<rparr> else c0);
          c2 = (if DirPerms c1 = 0 then c1\<lparr>DirPerms := DefaultDirPerms\<rparr> else c1);
          c3 = (if FilePerms c2 = 0 then c2\<lparr>FilePerms := DefaultFilePerms\<rparr> else c2)
      in c3)"

section \<open>Segment file names\<close>

subsection \<open>\<open>fmt.Sprintf("%020d", index)\<close>\<close>

text \<open>
  The verb \<open>%020d\<close> prints the decimal digits of the number, padded on the left with
  zeros to a width of 20; a number with more digits is printed in full.
\<close>

definition digit_char :: "nat \<Rightarrow> char" where
  "digit_char d = char_of (48 + d)"

fun decimal :: "nat \<Rightarrow> string" where
  "decimal n = (if n < 10 then [digit_char n] else decimal (n div 10) @ [digit_char (n mod 10)])"

definition Sprintf_020d :: "uint64 \<Rightarrow> string" where
  "Sprintf_020d v = (let s = decimal (unat v) in replicate (20 - length s) CHR ''0'' @ s)"

definition segmentName :: "uint64 \<Rightarrow> string" where
  "segmentName index = Sprintf_020d index"

subsection \<open>Decimal digits\<close>

text \<open>
  \<open>is_digit\<close> holds of the characters \<open>0\<close> to \<open>9\<close>. \<open>fixed_width k n\<close> is the
  numeral of \<open>n\<close> written with exactly \<open>k\<close> decimal digits, most significant
  first (the \<open>k\<close> low digits of \<open>n\<close>); it states what a zero-padded name is.
\<close>

definition is_digit :: "char \<Rightarrow> bool" where
  "is_digit c \<longleftrightarrow> CHR ''0'' \<le> c \<and> c \<le> CHR ''9''"

fun fixed_width :: "nat \<Rightarrow> nat \<Rightarrow> string" where
  "fixed_width 0 n = []"
| "fixed_width (Suc k) n = fixed_width k (n div 10) @ [digit_char (n mod 10)]"

text \<open>
  \<open>decimal_value a s\<close> is the number that the digits of \<open>s\<close> denote in base 10,
  read after a number \<open>a\<close> (so \<open>decimal_value 0 s\<close> is the number that \<open>s\<close>
  denotes). \<open>segment_file_name\<close> is the shape of a segment file's name in the spec's
  words: exactly 20 characters, all of them decimal digits, that denote a positive
  integer; the integer is a starting index, an unsigned 64-bit number.
\<close>

definition digit_value :: "char \<Rightarrow> nat" where
  "digit_value c = of_char c - 48"

definition decimal_value :: "nat \<Rightarrow> string \<Rightarrow> nat" where
  "decimal_value a s = foldl (\<lambda>n c. 10 * n + digit_value c) a s"

definition segment_file_name :: "string \<Rightarrow> bool" where
  "segment_file_name nm \<longleftrightarrow>
     length nm = 20 \<and> (\<forall>c \<in> set nm. is_digit c)
     \<and> 0 < decimal_value 0 nm \<and> decimal_value 0 nm < 2 ^ 64"

subsection \<open>\<open>strconv.ParseUint(s, 10, 64)\<close>\<close>

text \<open>
  \<open>ParseUint\<close> at base 10 and bit size 64, as the program calls it: no base prefix
  and no underscore is accepted, \<open>cutoff\<close> is \<open>maxUint64/10 + 1\<close> and
  \<open>maxVal\<close> is \<open>1<<64 - 1\<close>. \<open>ParseUint_loop\<close> is the loop over the bytes of
  the string, \<open>n\<close> the value read so far; \<open>lower\<close> is \<open>c | ('x' - 'X')\<close>.
\<close>

definition maxUint64 :: uint64 where
  "maxUint64 = - 1"

definition cutoff :: uint64 where
  "cutoff = maxUint64 div 10 + 1"

definition lower :: "nat \<Rightarrow> nat" where
  "lower c = c OR 32"

definition syntaxError :: "string \<Rightarrow> string \<Rightarrow> error" where
  "syntaxError fn str = NumError fn str ErrSyntax"

definition rangeError :: "string \<Rightarrow> string \<Rightarrow> error" where
  "rangeError fn str = NumError fn str ErrRange"

fun ParseUint_loop :: "string \<Rightarrow> string \<Rightarrow> uint64 \<Rightarrow> uint64 \<times> error option" where
  "ParseUint_loop s0 [] n = (n, None)"
| "ParseUint_loop s0 (ch # cs) n =
     (let c = (of_char ch :: nat) in
      if \<not> (48 \<le> c \<and> c \<le> 57) \<and> \<not> (97 \<le> lower c \<and> lower c \<le> 122)
      then (0, Some (syntaxError ''ParseUint'' s0))
      else
        let d = (if 48 \<le> c \<and> c \<le> 57 then c - 48 else lower c - 97 + 10) in
        if d \<ge> 10 then (0, Some (syntaxError ''ParseUint'' s0))
        else if n \<ge> cutoff then (maxUint64, Some (rangeError ''ParseUint'' s0))
        else
          let n' = n * 10; n1 = n' + of_nat d in
          if n1 < n' \<or> n1 > maxUint64 then (maxUint64, Some (rangeError ''ParseUint'' s0))
          else ParseUint_loop s0 cs n1)"

definition ParseUint :: "string \<Rightarrow> uint64 \<times> error option" where
  "ParseUint s = (if s = [] then (0, Some (syntaxError ''ParseUint'' s)) else ParseUint_loop s s 0)"

section \<open>The entry decoder\<close>

subsection \<open>\<open>binary.Uvarint\<close> of the Go standard library\<close>

text \<open>
  \<open>Uvarint\<close> decodes a \<open>uint64\<close> from the start of the buffer and returns it with
  the number of bytes read. It returns \<open>(0, 0)\<close> when the buffer ends before the
  terminating byte, and \<open>(0, -n)\<close> when the value overflows 64 bits after \<open>n\<close> bytes.
  \<open>Uvarint_loop\<close> is its \<open>for i, b := range buf\<close> loop; \<open>i\<close> is the index of
  the byte, \<open>x\<close> the value read so far and \<open>s\<close> the shift.
\<close>

definition MaxVarintLen64 :: nat where
  "MaxVarintLen64 = 10"

fun Uvarint_loop :: "byte list \<Rightarrow> nat \<Rightarrow> uint64 \<Rightarrow> nat \<Rightarrow> uint64 \<times> int" where
  "Uvarint_loop [] i x s = (0, 0)"
| "Uvarint_loop (b # buf) i x s =
     (if i = MaxVarintLen64 then (0, - (int i + 1))
      else if b < 0x80 then
        (if i = MaxVarintLen64 - 1 \<and> b > 1 then (0, - (int i + 1))
         else (x OR push_bit s (ucast b), int i + 1))
      else Uvarint_loop buf (i + 1) (x OR push_bit s (ucast (b AND 0x7f))) (s + 7))"

definition Uvarint :: "byte list \<Rightarrow> uint64 \<times> int" where
  "Uvarint buf = Uvarint_loop buf 0 0 0"

subsection \<open>\<open>loadNextBinaryEntry\<close>\<close>

text \<open>
  The method does not read its receiver; the model takes the buffer only (\<open>sz\<close>
  is the source's \<open>size\<close>). The difference \<open>len(data) - bytesRead\<close> is
  taken where \<open>bytesRead\<close> is positive and at most \<open>len(data)\<close>, so it
  does not overflow; its conversion to \<open>uint64\<close>, the conversion of
  \<open>size\<close> to \<open>int\<close> and the addition are those of the machine.
\<close>

definition loadNextBinaryEntry :: "byte list \<Rightarrow> int \<times> error option" where
  "loadNextBinaryEntry data =
     (case Uvarint data of (sz, bytesRead) \<Rightarrow>
        if bytesRead \<le> 0 then (0, Some ErrCorrupt)
        else if uint64_of_int (len data - bytesRead) < sz then (0, Some ErrCorrupt)
        else (int_add bytesRead (int_of_uint64 sz), None))"

subsection \<open>The scan of a segment's bytes\<close>

text \<open>
  \<open>bytepos\<close> is the source's struct of the same name; its fields \<open>start\<close> and
  \<open>end\<close> are \<open>pstart\<close> and \<open>pend\<close> here (\<open>end\<close> is a keyword).
\<close>

record bytepos =
  pstart :: int
  pend :: int

record segment =
  path :: string
  index :: uint64
  cbuf :: "byte list"
  cpos :: "bytepos list"

text \<open>
  A call either returns or panics (Go's run-time panic, here for a slice expression out
  of range); a loop that does not end is the value \<open>None\<close> of
  \<^theory_text>\<open>partial_function\<close>.
\<close>

datatype 'a exec = Returns 'a | Panics string

text \<open>
  The loop \<open>for len(data) > 0\<close> of \<open>loadSegmentEntries\<close>, with the variables it
  changes as arguments. \<open>Inl\<close> is the error the loop returns from the method with,
  \<open>Inr\<close> the entry positions when the loop ends. The slice expression
  \<open>data[bytesRead:]\<close> panics unless \<open>0 \<le> bytesRead \<le> len(data)\<close>.
\<close>

partial_function (option) loadSegmentEntries_loop ::
  "byte list \<Rightarrow> bytepos list \<Rightarrow> int \<Rightarrow> (error + bytepos list) exec option" where
  [code]: "loadSegmentEntries_loop data entryPositions currentPosition =
     (if len data > 0 then
        (case loadNextBinaryEntry data of
           (bytesRead, Some err) \<Rightarrow>
             Some (Returns (Inl (Wrapped ''failed to load binary entry from log segment'' err)))
         | (bytesRead, None) \<Rightarrow>
             if bytesRead < 0 \<or> len data < bytesRead
             then Some (Panics ''slice bounds out of range'')
             else loadSegmentEntries_loop (drop (nat bytesRead) data)
                    (entryPositions @
                       [\<lparr>pstart = currentPosition, pend = int_add currentPosition bytesRead\<rparr>])
                    (int_add currentPosition bytesRead))
      else Some (Returns (Inr entryPositions)))"

subsection \<open>The format of a segment file\<close>

text \<open>
  The format in the spec's words: a record is the varint of the payload's length followed
  by the payload's bytes, and a file is valid if and only if it is a whole number of
  records, one after the other (none for the empty file). A varint holds an unsigned
  64-bit number in groups of 7 bits, the least significant group first; every byte but
  the last has its high bit set; it has at most 10 bytes, and a tenth byte is at most 1.
  An encoding need not be the shortest one: the bytes \<open>0x80 0x00\<close> are a varint of 0.
  \<open>varint_tail i v\<close> holds of the bytes of a varint from its byte \<open>i\<close> on.
\<close>

definition varint_tail :: "nat \<Rightarrow> byte list \<Rightarrow> bool" where
  "varint_tail i v \<longleftrightarrow>
     v \<noteq> [] \<and> i + length v \<le> 10 \<and> (\<forall>b \<in> set (butlast v). 0x80 \<le> b) \<and> last v < 0x80
     \<and> (i + length v = 10 \<longrightarrow> last v \<le> 1)"

definition is_varint :: "byte list \<Rightarrow> bool" where
  "is_varint v \<longleftrightarrow>
     v \<noteq> [] \<and> length v \<le> 10 \<and> (\<forall>b \<in> set (butlast v). 0x80 \<le> b) \<and> last v < 0x80
     \<and> (length v = 10 \<longrightarrow> last v \<le> 1)"

fun varint_value :: "byte list \<Rightarrow> nat" where
  "varint_value [] = 0"
| "varint_value (b # bs) = unat (b AND 0x7f) + 128 * varint_value bs"

definition is_record :: "byte list \<Rightarrow> bool" where
  "is_record r \<longleftrightarrow>
     (\<exists>v payload. r = v @ payload \<and> is_varint v \<and> length payload = varint_value v)"

definition valid_file :: "byte list \<Rightarrow> bool" where
  "valid_file data \<longleftrightarrow> (\<exists>rs. data = concat rs \<and> (\<forall>r \<in> set rs. is_record r))"

text \<open>
  \<open>contiguous a ps b\<close>: the ranges \<open>ps\<close> are not empty, the first starts at
  \<open>a\<close>, each ends where the next starts, and the last ends at \<open>b\<close>.
\<close>

fun contiguous :: "int \<Rightarrow> bytepos list \<Rightarrow> int \<Rightarrow> bool" where
  "contiguous a [] b = (a = b)"
| "contiguous a (p # ps) b = (pstart p = a \<and> pstart p < pend p \<and> contiguous (pend p) ps b)"

section \<open>The file system\<close>

text \<open>
  The operations of package \<open>os\<close> that the program calls, on a small model of the
  file system: a table from paths to nodes (the first binding of a path is the node at
  that path), and a function that tells which system calls fail for a reason outside
  the model, so that every error branch of the program is reachable. The constants are
  those of Linux.
\<close>

datatype node = RegularFile "byte list" FileMode | Directory

datatype syscall =
    SysReadDir string
  | SysOpenFile string int FileMode
  | SysSeek string int int
  | SysReadFile string

record filesystem =
  nodes :: "(string \<times> node) list"
  fault :: "syscall \<Rightarrow> errno option"

record File =
  name :: string
  flag :: int
  offset :: int

record DirEntry =
  Name :: string
  IsDir :: bool

definition O_WRONLY :: int where
  "O_WRONLY = 1"

definition O_RDWR :: int where
  "O_RDWR = 2"

definition O_CREATE :: int where
  "O_CREATE = 64"

definition O_TRUNC :: int where
  "O_TRUNC = 512"

text \<open>\<open>filepath.Join\<close> of a clean directory path and a name without separator.\<close>

definition Join :: "string \<Rightarrow> string \<Rightarrow> string" where
  "Join dir elem = dir @ ''/'' @ elem"

definition Dir :: "string \<Rightarrow> string" where
  "Dir p = rev (drop 1 (dropWhile (\<lambda>c. c \<noteq> CHR ''/'') (rev p)))"

definition child_names :: "(string \<times> node) list \<Rightarrow> string \<Rightarrow> string list" where
  "child_names ns dir =
     List.map_filter
       (\<lambda>(p, nd).
          let k = length dir + 1 in
          if take k p = dir @ ''/'' \<and> drop k p \<noteq> [] \<and> CHR ''/'' \<notin> set (drop k p)
          then Some (drop k p) else None)
       ns"

text \<open>
  \<open>os.ReadDir\<close> returns the entries of the directory sorted by file name (the order
  of Go's strings: bytewise lexicographic).
\<close>

definition os_ReadDir :: "filesystem \<Rightarrow> string \<Rightarrow> DirEntry list \<times> error option" where
  "os_ReadDir fs dir =
     (case fault fs (SysReadDir dir) of
        Some e \<Rightarrow> ([], Some (PathError ''open'' dir e))
      | None \<Rightarrow>
         (case map_of (nodes fs) dir of
            None \<Rightarrow> ([], Some (PathError ''open'' dir ENOENT))
          | Some (RegularFile d m) \<Rightarrow> ([], Some (PathError ''readdirent'' dir ENOTDIR))
          | Some Directory \<Rightarrow>
             (map (\<lambda>n. \<lparr>Name = n, IsDir = (map_of (nodes fs) (Join dir n) = Some Directory)\<rparr>)
                (sort (remdups (child_names (nodes fs) dir))), None)))"

text \<open>
  \<open>os.OpenFile\<close>: an existing regular file is opened (and emptied under
  \<open>O_TRUNC\<close>); a directory cannot be opened for writing; a missing file is created
  empty with the given permission bits under \<open>O_CREATE\<close> when its directory exists.
  The handle starts at offset 0.
\<close>

definition os_OpenFile ::
  "filesystem \<Rightarrow> string \<Rightarrow> int \<Rightarrow> FileMode \<Rightarrow> File option \<times> filesystem \<times> error option" where
  "os_OpenFile fs nm flg perm =
     (case fault fs (SysOpenFile nm flg perm) of
        Some e \<Rightarrow> (None, fs, Some (PathError ''open'' nm e))
      | None \<Rightarrow>
         (case map_of (nodes fs) nm of
            Some Directory \<Rightarrow>
              if flg AND 3 \<noteq> 0 then (None, fs, Some (PathError ''open'' nm EISDIR))
              else (Some \<lparr>name = nm, flag = flg, offset = 0\<rparr>, fs, None)
          | Some (RegularFile d m) \<Rightarrow>
              (Some \<lparr>name = nm, flag = flg, offset = 0\<rparr>,
               (if flg AND O_TRUNC \<noteq> 0 then fs\<lparr>nodes := (nm, RegularFile [] m) # nodes fs\<rparr> else fs),
               None)
          | None \<Rightarrow>
              if flg AND O_CREATE \<noteq> 0 \<and> map_of (nodes fs) (Dir nm) = Some Directory
              then (Some \<lparr>name = nm, flag = flg, offset = 0\<rparr>,
                    fs\<lparr>nodes := (nm, RegularFile [] perm) # nodes fs\<rparr>, None)
              else (None, fs, Some (PathError ''open'' nm ENOENT))))"

text \<open>
  \<open>(*File).Seek(offset, whence)\<close>: \<open>whence\<close> 0, 1 and 2 are the start of the file,
  the current offset and the end of the file. On a \<open>nil\<close> handle the method returns
  \<open>ErrInvalid\<close>, here \<open>PathError\<close> with \<open>EINVAL\<close>.
\<close>

definition File_Seek ::
  "filesystem \<Rightarrow> File option \<Rightarrow> int \<Rightarrow> int \<Rightarrow> File option \<times> int \<times> error option" where
  "File_Seek fs file off whence =
     (case file of
        None \<Rightarrow> (None, 0, Some (PathError ''seek'' [] EINVAL))
      | Some f \<Rightarrow>
         (case fault fs (SysSeek (name f) off whence) of
            Some e \<Rightarrow> (Some f, 0, Some (PathError ''seek'' (name f) e))
          | None \<Rightarrow>
             (case map_of (nodes fs) (name f) of
                Some (RegularFile d m) \<Rightarrow>
                  let base = (if whence = 0 then 0 else if whence = 1 then offset f else len d);
                      pos = base + off
                  in if (whence \<noteq> 0 \<and> whence \<noteq> 1 \<and> whence \<noteq> 2) \<or> pos < 0
                     then (Some f, 0, Some (PathError ''seek'' (name f) EINVAL))
                     else (Some (f\<lparr>offset := pos\<rparr>), pos, None)
              | _ \<Rightarrow> (Some f, 0, Some (PathError ''seek'' (name f) EINVAL)))))"

definition os_ReadFile :: "filesystem \<Rightarrow> string \<Rightarrow> byte list \<times> error option" where
  "os_ReadFile fs nm =
     (case fault fs (SysReadFile nm) of
        Some e \<Rightarrow> ([], Some (PathError ''open'' nm e))
      | None \<Rightarrow>
         (case map_of (nodes fs) nm of
            None \<Rightarrow> ([], Some (PathError ''open'' nm ENOENT))
          | Some Directory \<Rightarrow> ([], Some (PathError ''read'' nm EISDIR))
          | Some (RegularFile d m) \<Rightarrow> (d, None)))"

section \<open>The log and its recovery\<close>

text \<open>
  The fields of \<open>Log\<close> that recovery reads or writes; the mutex and the reusable write
  batch are left out. \<open>sfile\<close> is \<open>None\<close> for a \<open>nil\<close> handle. The slice
  \<open>segments\<close> holds pointers to segments; no segment is shared, so the model holds the
  segments themselves and a pointer to one of them is its position in the slice.
\<close>

record Log =
  path :: string
  segments :: "segment list"
  sfile :: "File option"
  config :: Config
  closed :: bool
  corrupt :: bool

text \<open>
  \<open>loadSegmentEntries\<close> reads the file of the segment and scans it; the model returns
  the segment as the method leaves it.
\<close>

definition loadSegmentEntries ::
  "filesystem \<Rightarrow> segment \<Rightarrow> (segment \<times> error option) exec option" where
  "loadSegmentEntries fs seg =
     (case os_ReadFile fs (segment.path seg) of
        (data, Some err) \<Rightarrow>
          Some (Returns (seg, Some (Wrapped ''failed to read log segment file'' err)))
      | (data, None) \<Rightarrow>
         (case loadSegmentEntries_loop data [] 0 of
            None \<Rightarrow> None
          | Some (Panics m) \<Rightarrow> Some (Panics m)
          | Some (Returns (Inl err)) \<Rightarrow> Some (Returns (seg, Some err))
          | Some (Returns (Inr entryPositions)) \<Rightarrow>
              Some (Returns (seg\<lparr>cbuf := data, cpos := entryPositions\<rparr>, None))))"

text \<open>\<open>k\<close> is the position in \<open>l.segments\<close> of the segment that \<open>lastSegment\<close>
  points to.\<close>

definition openLastSegment ::
  "filesystem \<Rightarrow> Log \<Rightarrow> nat \<Rightarrow> (Log \<times> filesystem \<times> error option) exec option" where
  "openLastSegment fs l k =
     (let lastSegment = segments l ! k in
      case os_OpenFile fs (segment.path lastSegment) O_WRONLY (FilePerms (config l)) of
        (file, fs1, Some err) \<Rightarrow>
          Some (Returns (l, fs1, Some (Wrapped ''failed to open last log segment file'' err)))
      | (file, fs1, None) \<Rightarrow>
         (case File_Seek fs1 file 0 2 of
            (file', pos, Some err) \<Rightarrow>
              Some (Returns (l\<lparr>sfile := file'\<rparr>, fs1,
                Some (Wrapped ''failed to seek in last log segment file'' err)))
          | (file', pos, None) \<Rightarrow>
             (case loadSegmentEntries fs1 lastSegment of
                None \<Rightarrow> None
              | Some (Panics m) \<Rightarrow> Some (Panics m)
              | Some (Returns (seg', Some err)) \<Rightarrow>
                  Some (Returns (l\<lparr>segments := (segments l)[k := seg'], sfile := file'\<rparr>, fs1,
                    Some (Wrapped ''failed to load last log segment entries'' err)))
              | Some (Returns (seg', None)) \<Rightarrow>
                  Some (Returns (l\<lparr>segments := (segments l)[k := seg'], sfile := file'\<rparr>, fs1,
                    None)))))"

definition createInitialSegment :: "filesystem \<Rightarrow> Log \<Rightarrow> Log \<times> filesystem \<times> error option" where
  "createInitialSegment fs l =
     (let initialSegment =
            \<lparr>segment.path = Join (Log.path l) (segmentName 1), index = 1, cbuf = [], cpos = []\<rparr>;
          l1 = l\<lparr>segments := segments l @ [initialSegment]\<rparr>
      in case os_OpenFile fs (segment.path initialSegment)
                (O_CREATE OR O_RDWR OR O_TRUNC) (FilePerms (config l1)) of
           (file, fs1, Some err) \<Rightarrow>
             (l1, fs1, Some (Wrapped ''failed to create initial log segment file'' err))
         | (file, fs1, None) \<Rightarrow> (l1\<lparr>sfile := file\<rparr>, fs1, None))"

text \<open>The loop \<open>for _, file := range files\<close> of \<open>loadSegments\<close>; \<open>segs\<close> is
  \<open>l.segments\<close>.\<close>

fun loadSegments_loop :: "string \<Rightarrow> DirEntry list \<Rightarrow> segment list \<Rightarrow> segment list" where
  "loadSegments_loop lpath [] segs = segs"
| "loadSegments_loop lpath (file # files) segs =
     (let nm = Name file in
      if IsDir file \<or> len nm < 20 then loadSegments_loop lpath files segs
      else
        (case ParseUint (take 20 nm) of
           (idx, err) \<Rightarrow>
             if err \<noteq> None \<or> idx = 0 then loadSegments_loop lpath files segs
             else if len nm = 20
             then loadSegments_loop lpath files
                    (segs @ [\<lparr>segment.path = Join lpath nm, index = idx, cbuf = [], cpos = []\<rparr>])
             else loadSegments_loop lpath files segs))"

definition loadSegments ::
  "filesystem \<Rightarrow> Log \<Rightarrow> (Log \<times> filesystem \<times> error option) exec option" where
  "loadSegments fs l =
     (case os_ReadDir fs (Log.path l) of
        (files, Some err) \<Rightarrow>
          Some (Returns (l, fs, Some (Wrapped ''failed to read log directory'' err)))
      | (files, None) \<Rightarrow>
         (let l1 = l\<lparr>segments := loadSegments_loop (Log.path l) files (segments l)\<rparr> in
          if len (segments l1) = 0 then
            (case createInitialSegment fs l1 of
               (l2, fs2, Some err) \<Rightarrow>
                 Some (Returns (l2, fs2, Some (Wrapped ''failed to create initial log segment'' err)))
             | (l2, fs2, None) \<Rightarrow> Some (Returns (l2, fs2, None)))
          else
            (case openLastSegment fs l1 (length (segments l1) - 1) of
               None \<Rightarrow> None
             | Some (Panics m) \<Rightarrow> Some (Panics m)
             | Some (Returns (l2, fs2, Some err)) \<Rightarrow>
                 Some (Returns (l2, fs2, Some (Wrapped ''failed to open last log segment'' err)))
             | Some (Returns (l2, fs2, None)) \<Rightarrow> Some (Returns (l2, fs2, None)))))"

text \<open>
  \<open>segment_files\<close> are the entries of a directory listing that are segment files in
  the spec's words: not a directory, and named as a segment file. \<open>registered\<close> is the
  segment that recovery registers for such an entry.
\<close>

definition segment_files :: "DirEntry list \<Rightarrow> DirEntry list" where
  "segment_files files = filter (\<lambda>f. \<not> IsDir f \<and> segment_file_name (Name f)) files"

definition registered :: "string \<Rightarrow> DirEntry \<Rightarrow> segment" where
  "registered lpath f =
     \<lparr>segment.path = Join lpath (Name f), index = of_nat (decimal_value 0 (Name f)),
      cbuf = [], cpos = []\<rparr>"

section \<open>Example inputs\<close>

text \<open>A log directory with one segment file of the given contents, and its segment.\<close>

definition fs_example :: "byte list \<Rightarrow> filesystem" where
  "fs_example d =
     \<lparr>nodes = [(''/wal'', Directory), (''/wal/00000000000000000001'', RegularFile d 416)],
      fault = (\<lambda>c. None)\<rparr>"

definition seg_example :: segment where
  "seg_example =
     \<lparr>segment.path = ''/wal/00000000000000000001'', index = 1, cbuf = [], cpos = []\<rparr>"

text \<open>
  A new log on the directory \<open>/wal\<close>; a directory with three segment files, listed
  out of order, and a stray file; and an empty directory.
\<close>

definition log_example :: Log where
  "log_example =
     \<lparr>Log.path = ''/wal'', segments = [], sfile = None, config = DefaultConfig,
      closed = False, corrupt = False\<rparr>"

definition fs_segments :: filesystem where
  "fs_segments =
     \<lparr>nodes = [(''/wal'', Directory),
               (''/wal/00000000000000000010'', RegularFile [1, 7, 2, 8, 9] 416),
               (''/wal/00000000000000000002'', RegularFile [1, 7, 0] 416),
               (''/wal/notes.txt'', RegularFile [9] 416),
               (''/wal/00000000000000000001'', RegularFile [1, 7] 416)],
      fault = (\<lambda>c. None)\<rparr>"

definition fs_empty :: filesystem where
  "fs_empty = \<lparr>nodes = [(''/wal'', Directory)], fault = (\<lambda>c. None)\<rparr>"

section \<open>Properties of the configuration\<close>

text \<open>
  Claim C8, as stated, fails for \<open>Sync\<close>: \<open>Validate\<close> never assigns it. An unset
  \<open>Sync\<close> is \<open>false\<close> (the zero value of \<open>bool\<close>), the documented default is
  \<open>true\<close>, and after validation the field is still \<open>false\<close>.
\<close>

theorem Validate_Sync_counterexample:
  "Sync (Validate \<lparr>Sync = False, SegmentSize = 0, DirPerms = 0, FilePerms = 0\<rparr>) = False
   \<and> Sync DefaultConfig = True"
  by (simp add: Validate_def DefaultConfig_def)

text \<open>
  Claim C8, amended: for every configuration, validation replaces a \<open>SegmentSize\<close>
  that is zero or negative by the 20 MiB default, a zero \<open>DirPerms\<close> by 0750 and a
  zero \<open>FilePerms\<close> by 0640, leaves every other value of these three fields as it
  is, and leaves \<open>Sync\<close> unchanged.
\<close>

theorem Validate_defaults:
  "Validate c =
     \<lparr>Sync = Sync c,
      SegmentSize = (if SegmentSize c \<le> 0 then 20 * 1024 * 1024 else SegmentSize c),
      DirPerms = (if DirPerms c = 0 then 488 else DirPerms c),
      FilePerms = (if FilePerms c = 0 then 416 else FilePerms c)\<rparr>"
  by (cases c)
     (simp add: Validate_def DefaultSegmentSize_def DefaultDirPerms_def DefaultFilePerms_def)

section \<open>Properties of the entry decoder\<close>

subsection \<open>Conversions between \<open>int\<close> and \<open>uint64\<close>\<close>

lemma int_length_bound:
  assumes "length (xs :: 'a list) < 2 ^ 63"
  shows "int (length xs) < 2 ^ 63"
proof -
  have "int (length xs) < int (2 ^ 63)"
    using assms by (simp only: of_nat_less_iff)
  then show ?thesis by simp
qed

lemma uint64_of_int_less:
  "0 \<le> k \<Longrightarrow> k < 2 ^ 63 \<Longrightarrow> (uint64_of_int k < w) = (k < uint w)"
  by (simp add: uint64_of_int_def word_less_def uint_word_of_int take_bit_int_eq_self)

lemma int_of_uint64_small:
  assumes "uint w < 2 ^ 63"
  shows "int_of_uint64 w = uint w"
proof -
  have "- (2 ^ 63) \<le> uint w"
    by (rule order_trans [of _ 0]) simp_all
  then have "signed_take_bit 63 (uint w) = uint w"
    using assms by (rule signed_take_bit_int_eq_self)
  then show ?thesis
    by (simp only: int_of_uint64_def sint_uint) simp
qed

lemma int_add_small:
  "0 \<le> a \<Longrightarrow> 0 \<le> b \<Longrightarrow> a + b < 2 ^ 63 \<Longrightarrow> int_add a b = a + b"
  by (simp add: int_add_def signed_take_bit_int_eq_self)

subsection \<open>The width of a varint\<close>

lemma Uvarint_loop_bounds:
  "Uvarint_loop buf i x s = (v, n) \<Longrightarrow>
     n \<le> int i + int (length buf) \<and> (0 < n \<longrightarrow> int i < n)"
  by (induction buf i x s rule: Uvarint_loop.induct) (auto split: if_splits)

lemma Uvarint_bounds:
  "Uvarint buf = (v, n) \<Longrightarrow> n \<le> int (length buf)"
  using Uvarint_loop_bounds [of buf 0 0 0 v n] by (simp add: Uvarint_def)

subsection \<open>The decoder of one entry\<close>

text \<open>The result of \<open>loadNextBinaryEntry\<close>, with the machine arithmetic resolved.\<close>

lemma loadNextBinaryEntry_eq:
  assumes "length data < 2 ^ 63"
  shows "loadNextBinaryEntry data =
     (case Uvarint data of (sz, bytesRead) \<Rightarrow>
        if bytesRead \<le> 0 \<or> int (length data) - bytesRead < uint sz
        then (0, Some ErrCorrupt)
        else (bytesRead + uint sz, None))"
proof -
  obtain sz n where U: "Uvarint data = (sz, n)"
    by (cases "Uvarint data")
  have n_le: "n \<le> int (length data)"
    using U by (rule Uvarint_bounds)
  have len_lt: "int (length data) < 2 ^ 63"
    using assms by (rule int_length_bound)
  show ?thesis
  proof (cases "n \<le> 0")
    case True
    then show ?thesis by (simp add: loadNextBinaryEntry_def U)
  next
    case False
    have cmp: "(uint64_of_int (len data - n) < sz) = (int (length data) - n < uint sz)"
      using n_le len_lt False by (simp add: len_def uint64_of_int_less)
    show ?thesis
    proof (cases "int (length data) - n < uint sz")
      case True
      then show ?thesis using False cmp by (simp add: loadNextBinaryEntry_def U)
    next
      case fits: False
      have "uint sz < 2 ^ 63" using fits len_lt False by linarith
      then have "int_of_uint64 sz = uint sz" by (rule int_of_uint64_small)
      moreover have "int_add n (uint sz) = n + uint sz"
        using fits len_lt False by (intro int_add_small) auto
      ultimately show ?thesis using False fits cmp by (simp add: loadNextBinaryEntry_def U)
    qed
  qed
qed

text \<open>
  Claim C1: for every byte buffer (a Go slice, so shorter than \<open>2 ^ 63\<close>),
  \<open>loadNextBinaryEntry\<close> returns \<open>ErrCorrupt\<close> when \<open>Uvarint\<close> consumed zero or
  fewer bytes, or when the declared payload length exceeds the number of bytes that
  remain after the varint; otherwise it returns no error and the varint's width plus the
  declared payload length. The conversions between \<open>int\<close> and \<open>uint64\<close> and the
  addition of the source lose nothing.
\<close>

theorem loadNextBinaryEntry_spec:
  assumes "length data < 2 ^ 63"
  shows "loadNextBinaryEntry data =
     (case Uvarint data of (sz, bytesRead) \<Rightarrow>
        if bytesRead \<le> 0 \<or> int (length data) - bytesRead < uint sz
        then (0, Some ErrCorrupt)
        else (bytesRead + uint sz, None))"
  using assms by (rule loadNextBinaryEntry_eq)

text \<open>
  Witness of C1: a buffer of five bytes whose first byte declares a payload of three
  bytes; four bytes are consumed.
\<close>

theorem loadNextBinaryEntry_spec_witness:
  "length [3, 1, 2, 3, 9 :: byte] < 2 ^ 63
   \<and> loadNextBinaryEntry [3, 1, 2, 3, 9] = (4, None)"
  using loadNextBinaryEntry_spec [of "[3, 1, 2, 3, 9]"]
  by (simp add: Uvarint_def MaxVarintLen64_def)

section \<open>Properties of the segment file names\<close>

subsection \<open>Digits and fixed-width numerals\<close>

lemma of_char_digit_char: "d < 10 \<Longrightarrow> of_char (digit_char d) = 48 + d"
  by (simp add: digit_char_def)

lemma is_digit_digit_char: "d < 10 \<Longrightarrow> is_digit (digit_char d)"
  by (simp add: is_digit_def less_eq_char_def of_char_digit_char)

lemma digit_char_0: "digit_char 0 = CHR ''0''"
  by code_simp

lemma digit_char_less: "a < b \<Longrightarrow> b < 10 \<Longrightarrow> digit_char a < digit_char b"
  by (simp add: less_char_def of_char_digit_char)

lemma length_fixed_width: "length (fixed_width k n) = k"
  by (induction k arbitrary: n) simp_all

lemma fixed_width_digits: "c \<in> set (fixed_width k n) \<Longrightarrow> is_digit c"
  by (induction k arbitrary: n) (auto simp: is_digit_digit_char)

lemma fixed_width_zero: "fixed_width k 0 = replicate k CHR ''0''"
  by (induction k) (simp_all add: digit_char_0 replicate_append_same)

lemma decimal_unfold:
  "decimal n = (if n < 10 then [digit_char n] else decimal (n div 10) @ [digit_char (n mod 10)])"
  by (rule decimal.simps)

text \<open>Padding the decimal numeral with zeros gives the fixed-width numeral.\<close>

lemma pad_decimal:
  "0 < k \<Longrightarrow> n < 10 ^ k \<Longrightarrow>
     replicate (k - length (decimal n)) CHR ''0'' @ decimal n = fixed_width k n"
proof (induction k arbitrary: n)
  case 0
  then show ?case by simp
next
  case (Suc k)
  show ?case
  proof (cases "n < 10")
    case True
    then show ?thesis
      by (subst (1 2) decimal_unfold) (simp add: fixed_width_zero del: decimal.simps)
  next
    case False
    then have k: "0 < k" using Suc.prems by (cases k) auto
    have "n div 10 < 10 ^ k"
      using Suc.prems by (simp add: less_mult_imp_div_less mult.commute)
    then have IH:
      "replicate (k - length (decimal (n div 10))) CHR ''0'' @ decimal (n div 10)
         = fixed_width k (n div 10)"
      using k by (rule Suc.IH [rotated])
    show ?thesis
      using False IH by (subst (1 2) decimal_unfold) (simp del: decimal.simps)
  qed
qed

text \<open>Numerals of the same width are ordered as the numbers they denote.\<close>

lemma fixed_width_less:
  "a < b \<Longrightarrow> b < 10 ^ k \<Longrightarrow> fixed_width k a < fixed_width k b"
proof (induction k arbitrary: a b)
  case 0
  then show ?case by simp
next
  case (Suc k)
  have bk: "b div 10 < 10 ^ k"
    using Suc.prems by (simp add: less_mult_imp_div_less mult.commute)
  consider "a div 10 < b div 10" | "a div 10 = b div 10" "a mod 10 < b mod 10"
    using Suc.prems(1)
    by (metis div_le_mono less_le mod_div_decomp nat_add_left_cancel_less nat_neq_iff)
  then show ?case
  proof cases
    case 1
    then have "fixed_width k (a div 10) < fixed_width k (b div 10)"
      using bk by (rule Suc.IH)
    then have "(fixed_width k (a div 10) @ [digit_char (a mod 10)],
                fixed_width k (b div 10) @ [digit_char (b mod 10)]) \<in> lexord {(u, v). u < v}"
      unfolding list_less_def by (rule lexord_sufI) (simp add: length_fixed_width)
    then show ?thesis by (simp add: list_less_def)
  next
    case 2
    have "digit_char (a mod 10) < digit_char (b mod 10)"
      using 2(2) by (rule digit_char_less) simp
    then have "(fixed_width k (b div 10) @ digit_char (a mod 10) # [],
                fixed_width k (b div 10) @ digit_char (b mod 10) # []) \<in> lexord {(u, v). u < v}"
      by (intro lexord_append_left_rightI) simp
    then show ?thesis using 2(1) by (simp add: list_less_def)
  qed
qed

lemma unat_uint64_less: "unat (i :: uint64) < 10 ^ 20"
proof -
  have "unat i < 2 ^ 64" using unsigned_less [of i] by simp
  also have "(2::nat) ^ 64 < 10 ^ 20" by simp
  finally show ?thesis .
qed

lemma segmentName_fixed_width: "segmentName i = fixed_width 20 (unat i)"
  using pad_decimal [of 20 "unat i"] unat_uint64_less [of i]
  by (simp add: segmentName_def Sprintf_020d_def Let_def del: decimal.simps)

subsection \<open>The order of the names\<close>

text \<open>
  Claim C9: for all starting indices \<open>a < b\<close> (unsigned 64-bit), both segment names
  are exactly 20 decimal digits, and the name of \<open>a\<close> is lexicographically less than
  the name of \<open>b\<close> (so the names differ: the naming is injective).
\<close>

theorem segmentName_order:
  assumes "a < b"
  shows "length (segmentName a) = 20 \<and> length (segmentName b) = 20
    \<and> (\<forall>c \<in> set (segmentName a) \<union> set (segmentName b). is_digit c)
    \<and> segmentName a < segmentName b \<and> segmentName a \<noteq> segmentName b"
proof -
  have "unat a < unat b" using assms by (simp add: word_less_nat_alt)
  then have "fixed_width 20 (unat a) < fixed_width 20 (unat b)"
    using unat_uint64_less by (rule fixed_width_less)
  then show ?thesis
    by (auto simp: segmentName_fixed_width length_fixed_width dest: fixed_width_digits)
qed

text \<open>Witness of C9: the names of the indices 9 and 10.\<close>

theorem segmentName_order_witness:
  "(9 :: uint64) < 10
   \<and> segmentName 9 = ''00000000000000000009'' \<and> segmentName 10 = ''00000000000000000010''
   \<and> segmentName 9 < segmentName 10"
proof -
  have h: "(9 :: uint64) < 10" by simp
  have "segmentName 9 = ''00000000000000000009''" "segmentName 10 = ''00000000000000000010''"
    by code_simp+
  then show ?thesis using segmentName_order [OF h] by simp
qed

subsection \<open>Parsing a name\<close>

lemma decimal_value_Nil: "decimal_value a [] = a"
  by (simp add: decimal_value_def)

lemma decimal_value_Cons: "decimal_value a (c # cs) = decimal_value (10 * a + digit_value c) cs"
  by (simp add: decimal_value_def)

lemma decimal_value_ge: "a \<le> decimal_value a s"
proof (induction s arbitrary: a)
  case Nil
  show ?case by (simp add: decimal_value_Nil)
next
  case (Cons c cs)
  have "a \<le> 10 * a + digit_value c" by simp
  also have "\<dots> \<le> decimal_value (10 * a + digit_value c) cs" by (rule Cons.IH)
  finally show ?case by (simp add: decimal_value_Cons)
qed

lemma cutoff_val: "cutoff = 1844674407370955162"
  by (simp add: cutoff_def maxUint64_def)

lemma maxUint64_top: "\<not> (n > maxUint64)"
  by (simp add: maxUint64_def word_order.extremum_strict)

lemma unat_times_10:
  assumes "\<not> n \<ge> cutoff" shows "unat (n * 10 :: uint64) = unat n * 10"
proof -
  have "unat n < 1844674407370955162"
    using assms by (simp add: cutoff_val word_le_nat_alt)
  then have "unat n * unat (10 :: uint64) < 2 ^ LENGTH(64)" by simp
  then have "unat (n * 10) = unat n * unat (10 :: uint64)"
    by (simp only: unat_mult_lem [THEN iffD1])
  then show ?thesis by simp
qed

lemma cutoff_overflow:
  assumes "n \<ge> cutoff" shows "2 ^ 64 \<le> 10 * unat (n :: uint64)"
proof -
  have "1844674407370955162 \<le> unat n"
    using assms by (simp add: cutoff_val word_le_nat_alt)
  then show ?thesis by simp
qed

lemma add_digit:
  fixes m :: uint64
  assumes "d < 10"
  shows "(m + of_nat d < m) = (2 ^ 64 \<le> unat m + d)"
    and "\<not> (m + of_nat d < m) \<Longrightarrow> unat (m + of_nat d) = unat m + d"
proof -
  have d: "unat (of_nat d :: uint64) = d"
    using assms by (simp add: unat_of_nat)
  have iff: "(m \<le> m + of_nat d) = (unat m + d < 2 ^ 64)"
    using no_olen_add_nat [of m "of_nat d"] by (simp add: d)
  show "(m + of_nat d < m) = (2 ^ 64 \<le> unat m + d)"
    using iff by (simp add: not_le [symmetric] not_less)
  assume "\<not> (m + of_nat d < m)"
  then have "m \<le> m + of_nat d" by simp
  then show "unat (m + of_nat d) = unat m + d"
    using unat_plus_simple [of m "of_nat d"] by (simp add: d)
qed

lemma is_digit_iff: "is_digit c \<longleftrightarrow> 48 \<le> (of_char c :: nat) \<and> (of_char c :: nat) \<le> 57"
  by (simp add: is_digit_def less_eq_char_def)

text \<open>
  \<open>ParseUint\<close> succeeds exactly on the non-empty strings of decimal digits whose
  number is below \<open>2 ^ 64\<close>, and returns that number.
\<close>

lemma ParseUint_loop_spec:
  "ParseUint_loop s0 cs n = (r, e) \<Longrightarrow>
     (e = None) = ((\<forall>c \<in> set cs. is_digit c) \<and> decimal_value (unat n) cs < 2 ^ 64)
     \<and> (e = None \<longrightarrow> r = of_nat (decimal_value (unat n) cs))"
proof (induction cs arbitrary: n)
  case Nil
  then show ?case using unsigned_less [of n] by (simp add: decimal_value_Nil)
next
  case (Cons ch cs)
  let ?c = "of_char ch :: nat"
  show ?case
  proof (cases "is_digit ch")
    case False
    then have "ParseUint_loop s0 (ch # cs) n = (0, Some (syntaxError ''ParseUint'' s0))"
      by (auto simp: is_digit_iff Let_def)
    then show ?thesis using Cons.prems False by auto
  next
    case True
    then have c: "48 \<le> ?c" "?c \<le> 57" by (simp_all add: is_digit_iff)
    define d where "d = ?c - 48"
    have d: "d < 10" "digit_value ch = d" using c by (simp_all add: d_def digit_value_def)
    have nd: "\<not> 10 \<le> ?c - 48" using c by simp
    show ?thesis
    proof (cases "n \<ge> cutoff")
      case True
      then have "ParseUint_loop s0 (ch # cs) n = (maxUint64, Some (rangeError ''ParseUint'' s0))"
        using c nd by (simp add: Let_def)
      moreover have "2 ^ 64 \<le> decimal_value (unat n) (ch # cs)"
        using cutoff_overflow [OF True] decimal_value_ge [of "10 * unat n + d" cs]
        by (simp add: decimal_value_Cons d)
      ultimately show ?thesis using Cons.prems by auto
    next
      case nc: False
      have n10: "unat (n * 10) = unat n * 10" using nc by (rule unat_times_10)
      show ?thesis
      proof (cases "n * 10 + of_nat d < n * 10")
        case True
        then have "ParseUint_loop s0 (ch # cs) n = (maxUint64, Some (rangeError ''ParseUint'' s0))"
          using c nd nc by (simp add: Let_def d_def)
        moreover have "2 ^ 64 \<le> decimal_value (unat n) (ch # cs)"
          using True add_digit(1) [OF d(1), of "n * 10"] decimal_value_ge [of "10 * unat n + d" cs]
          by (simp add: decimal_value_Cons d n10 mult.commute)
        ultimately show ?thesis using Cons.prems by auto
      next
        case False
        then have step: "ParseUint_loop s0 (ch # cs) n = ParseUint_loop s0 cs (n * 10 + of_nat d)"
          using c nd nc maxUint64_top by (simp add: Let_def d_def)
        have rec: "ParseUint_loop s0 cs (n * 10 + of_nat d) = (r, e)"
          using Cons.prems by (simp only: step)
        have u: "unat (n * 10 + of_nat d) = 10 * unat n + d"
          using add_digit(2) [OF d(1) False] by (simp add: n10)
        show ?thesis
          using Cons.IH [OF rec] \<open>is_digit ch\<close>
          by (simp add: u decimal_value_Cons d)
      qed
    qed
  qed
qed

lemma ParseUint_spec:
  "ParseUint s = (r, e) \<Longrightarrow>
     (e = None) = (s \<noteq> [] \<and> (\<forall>c \<in> set s. is_digit c) \<and> decimal_value 0 s < 2 ^ 64)
     \<and> (e = None \<longrightarrow> r = of_nat (decimal_value 0 s))"
  using ParseUint_loop_spec [of s s 0 r e]
  by (auto simp: ParseUint_def split: if_splits)

lemma of_nat_uint64_eq_0:
  assumes "v < 2 ^ 64"
  shows "((of_nat v :: uint64) = 0) = (v = 0)"
proof -
  have "unat (of_nat v :: uint64) = v"
    using assms by (simp add: unat_of_nat)
  then show ?thesis
    using unat_eq_0 [of "of_nat v :: uint64"] by auto
qed

lemma registered_iff:
  assumes "ParseUint (take 20 nm) = (idx, err)"
  shows "(\<not> (len nm < 20) \<and> \<not> (err \<noteq> None \<or> idx = 0) \<and> len nm = 20) = segment_file_name nm"
    and "segment_file_name nm \<Longrightarrow> idx = of_nat (decimal_value 0 nm)"
proof -
  show "(\<not> (len nm < 20) \<and> \<not> (err \<noteq> None \<or> idx = 0) \<and> len nm = 20) = segment_file_name nm"
  proof (cases "length nm = 20")
    case False
    then show ?thesis by (auto simp: segment_file_name_def len_def)
  next
    case True
    then have t: "take 20 nm = nm" "nm \<noteq> []" by auto
    note P = ParseUint_spec [OF assms, unfolded t]
    have "idx = 0 \<longleftrightarrow> decimal_value 0 nm = 0" if "err = None"
    proof -
      have "idx = of_nat (decimal_value 0 nm)" "decimal_value 0 nm < 2 ^ 64"
        using P that t by auto
      then show ?thesis by (simp add: of_nat_uint64_eq_0)
    qed
    then show ?thesis using P True t by (auto simp: segment_file_name_def len_def)
  qed
  show "segment_file_name nm \<Longrightarrow> idx = of_nat (decimal_value 0 nm)"
    using ParseUint_spec [OF assms] by (auto simp: segment_file_name_def)
qed

subsection \<open>The scan of the directory listing\<close>

text \<open>The scan appends one segment for each entry of the shape of a segment file.\<close>

lemma loadSegments_loop_eq:
  "loadSegments_loop lpath files segs =
     segs @ map (\<lambda>f. \<lparr>segment.path = Join lpath (Name f),
                        index = of_nat (decimal_value 0 (Name f)), cbuf = [], cpos = []\<rparr>)
              (filter (\<lambda>f. \<not> IsDir f \<and> segment_file_name (Name f)) files)"
proof (induction files arbitrary: segs)
  case Nil
  show ?case by simp
next
  case (Cons e es)
  obtain idx err where P: "ParseUint (take 20 (Name e)) = (idx, err)"
    by (cases "ParseUint (take 20 (Name e))")
  note R = registered_iff [OF P]
  show ?case
  proof (cases "\<not> IsDir e \<and> segment_file_name (Name e)")
    case True
    then have "\<not> (len (Name e) < 20)" "\<not> (err \<noteq> None \<or> idx = 0)" "len (Name e) = 20"
      "idx = of_nat (decimal_value 0 (Name e))"
      using R by blast+
    then show ?thesis using True by (simp add: P Cons.IH Let_def)
  next
    case False
    then have "IsDir e \<or> len (Name e) < 20 \<or> (err \<noteq> None \<or> idx = 0) \<or> len (Name e) \<noteq> 20"
      using R(1) by blast
    then show ?thesis using False by (auto simp add: P Cons.IH Let_def)
  qed
qed

text \<open>
  Claim C5: the scan of the directory listing registers an entry as a segment file if
  and only if the entry is not a directory, its name has exactly 20 characters, and
  these parse as a positive base-10 integer (twenty decimal digits whose number is
  positive and fits the unsigned 64-bit starting index). The registered segments are
  appended in the order of the listing, each with the parsed number as its index; every
  other entry is skipped, and the scan has no error to return.
\<close>

theorem loadSegments_loop_registers:
  "loadSegments_loop lpath files segs =
     segs @ map (\<lambda>f. \<lparr>segment.path = Join lpath (Name f),
                        index = of_nat (decimal_value 0 (Name f)), cbuf = [], cpos = []\<rparr>)
              (filter (\<lambda>f. \<not> IsDir f \<and> segment_file_name (Name f)) files)"
  by (rule loadSegments_loop_eq)

text \<open>
  Witness of C5: a listing with a name of twenty zeros, a segment file, a directory with
  a segment's name, names of 19 and 24 characters, a name with a letter, and twenty
  nines (a number that does not fit 64 bits). Only the second is registered.
\<close>

theorem loadSegments_loop_registers_witness:
  "loadSegments_loop ''/wal''
     [\<lparr>Name = ''00000000000000000000'', IsDir = False\<rparr>,
      \<lparr>Name = ''00000000000000000007'', IsDir = False\<rparr>,
      \<lparr>Name = ''00000000000000000008'', IsDir = True\<rparr>,
      \<lparr>Name = ''0000000000000000009'', IsDir = False\<rparr>,
      \<lparr>Name = ''00000000000000000010.tmp'', IsDir = False\<rparr>,
      \<lparr>Name = ''0000000000000000001a'', IsDir = False\<rparr>,
      \<lparr>Name = ''99999999999999999999'', IsDir = False\<rparr>] []
   = [\<lparr>segment.path = ''/wal/00000000000000000007'', index = 7, cbuf = [], cpos = []\<rparr>]"
  using loadSegments_loop_registers [of "''/wal''"
     "[\<lparr>Name = ''00000000000000000000'', IsDir = False\<rparr>,
      \<lparr>Name = ''00000000000000000007'', IsDir = False\<rparr>,
      \<lparr>Name = ''00000000000000000008'', IsDir = True\<rparr>,
      \<lparr>Name = ''0000000000000000009'', IsDir = False\<rparr>,
      \<lparr>Name = ''00000000000000000010.tmp'', IsDir = False\<rparr>,
      \<lparr>Name = ''0000000000000000001a'', IsDir = False\<rparr>,
      \<lparr>Name = ''99999999999999999999'', IsDir = False\<rparr>]" "[]"]
  by (simp add: segment_file_name_def is_digit_def decimal_value_def digit_value_def Join_def)

section \<open>Properties of the scan of a segment\<close>

subsection \<open>Varints\<close>

lemma nat_or_push_bit:
  fixes a c :: nat
  assumes "a < 2 ^ s"
  shows "a OR push_bit s c = a + push_bit s c"
proof -
  have "a AND push_bit s c = 0"
  proof (rule bit_eqI)
    fix n
    have "take_bit s a = a" using assms by (rule take_bit_nat_eq_self)
    then have "bit a n \<Longrightarrow> n < s"
      by (metis bit_take_bit_iff)
    then show "bit (a AND push_bit s c) n = bit (0 :: nat) n"
      by (auto simp: bit_and_iff bit_push_bit_iff)
  qed
  then show ?thesis by (simp add: disjunctive_add_eq_or)
qed

lemma or_push_bit:
  fixes x :: uint64 and c :: byte
  assumes "unat x < 2 ^ s" and "unat x + 2 ^ s * unat c < 2 ^ 64"
  shows "unat (x OR push_bit s (ucast c)) = unat x + 2 ^ s * unat c"
proof -
  have c: "unat (ucast c :: uint64) = unat c"
    by (simp add: unsigned_ucast_eq take_bit_nat_eq_self
        order_less_trans [OF unsigned_less [of c]])
  have "push_bit s (unat c) < 2 ^ 64"
    using assms(2) by (simp add: push_bit_eq_mult mult.commute)
  then have "unat (push_bit s (ucast c :: uint64)) = push_bit s (unat c)"
    by (simp add: unsigned_push_bit_eq c take_bit_nat_eq_self)
  then have "unat (x OR push_bit s (ucast c)) = unat x OR push_bit s (unat c)"
    by (simp add: unsigned_or_eq)
  also have "\<dots> = unat x + push_bit s (unat c)"
    using assms(1) by (rule nat_or_push_bit)
  finally show ?thesis by (simp add: push_bit_eq_mult mult.commute)
qed

lemma unat_and_0x7f: "unat (b AND 0x7f :: byte) = unat b mod 128"
proof -
  have "(0x7f :: byte) = mask 7" by (simp add: mask_eq_exp_minus_1)
  then have "b AND 0x7f = take_bit 7 b" by (simp add: take_bit_eq_mask)
  then show ?thesis by (simp add: take_bit_eq_mod unat_mod)
qed

lemma shift_bound:
  fixes a P c :: nat
  assumes "a < P" and "c \<le> 127"
  shows "a + P * c < 128 * P"
proof -
  have "P * c \<le> P * 127" using assms(2) by (rule mult_le_mono2)
  with assms(1) have "a + P * c < P + P * 127" by (rule add_less_le_mono)
  also have "\<dots> = 128 * P" by simp
  finally show ?thesis .
qed

lemma unat_and_0x7f_less: "unat (b AND 0x7f :: byte) < 128"
  by (simp add: unat_and_0x7f)

lemma unat_less_0x80: "b < (0x80 :: byte) \<Longrightarrow> unat (b AND 0x7f) = unat b \<and> unat b < 128"
  by (simp add: unat_and_0x7f word_less_nat_alt)

lemma pow7_Suc: "(2::nat) ^ (7 * Suc i) = 128 * 2 ^ (7 * i)"
  by (simp add: power_add)

lemma pow7_le: "i \<le> 8 \<Longrightarrow> 128 * (2::nat) ^ (7 * i) \<le> 2 ^ 63"
proof -
  assume "i \<le> 8"
  then have "(2::nat) ^ (7 * Suc i) \<le> 2 ^ 63"
    by (intro power_increasing) simp_all
  then show ?thesis by (simp only: pow7_Suc)
qed

lemma Uvarint_loop_varint:
  assumes "varint_tail i v" and "unat x < 2 ^ (7 * i)"
  shows "\<exists>r. Uvarint_loop (v @ rest) i x (7 * i) = (r, int (i + length v))
           \<and> unat r = unat x + 2 ^ (7 * i) * varint_value v"
  using assms
proof (induction v arbitrary: i x)
  case Nil
  then show ?case by (simp add: varint_tail_def)
next
  case (Cons b v)
  show ?case
  proof (cases "v = []")
    case True
    from Cons.prems(1) True have i: "i \<le> 9" and b: "b < 0x80" and last: "i = 9 \<longrightarrow> b \<le> 1"
      by (auto simp: varint_tail_def)
    have ub: "unat (b AND 0x7f) = unat b" "unat b < 128"
      using unat_less_0x80 [OF b] by simp_all
    have fits: "unat x + 2 ^ (7 * i) * unat b < 2 ^ 64"
    proof (cases "i = 9")
      case True
      then have "unat b \<le> 1" using last by (simp add: word_le_nat_alt)
      then have "2 ^ (7 * i) * unat b \<le> 2 ^ 63" using True by (cases "unat b") auto
      moreover have "unat x < 2 ^ 63" using Cons.prems(2) True by simp
      ultimately show ?thesis by simp
    next
      case False
      then have "i \<le> 8" using i by simp
      then have "128 * (2::nat) ^ (7 * i) \<le> 2 ^ 63" by (rule pow7_le)
      moreover have "unat x + 2 ^ (7 * i) * unat b < 128 * 2 ^ (7 * i)"
        using Cons.prems(2) ub(2) by (intro shift_bound) simp_all
      ultimately show ?thesis by simp
    qed
    have "unat (x OR push_bit (7 * i) (ucast b)) = unat x + 2 ^ (7 * i) * unat b"
      using Cons.prems(2) fits by (rule or_push_bit)
    moreover have "Uvarint_loop ((b # v) @ rest) i x (7 * i)
        = (x OR push_bit (7 * i) (ucast b), int i + 1)"
      using i b last by (auto simp: MaxVarintLen64_def not_less)
    ultimately show ?thesis using True ub by simp
  next
    case False
    from False obtain a v' where "v = a # v'" by (cases v) auto
    with Cons.prems(1) have i: "i \<le> 8" by (simp add: varint_tail_def)
    from Cons.prems(1) False have b: "\<not> b < 0x80" and tail: "varint_tail (Suc i) v"
      by (auto simp: varint_tail_def not_less)
    let ?x = "x OR push_bit (7 * i) (ucast (b AND 0x7f))"
    have p: "128 * (2::nat) ^ (7 * i) \<le> 2 ^ 63" using i by (rule pow7_le)
    have fits: "unat x + 2 ^ (7 * i) * unat (b AND 0x7f) < 128 * 2 ^ (7 * i)"
      using Cons.prems(2) unat_and_0x7f_less [of b] by (intro shift_bound) simp_all
    then have "unat x + 2 ^ (7 * i) * unat (b AND 0x7f) < 2 ^ 64"
      using p by simp
    with Cons.prems(2) have ux: "unat ?x = unat x + 2 ^ (7 * i) * unat (b AND 0x7f)"
      by (rule or_push_bit)
    then have "unat ?x < 2 ^ (7 * Suc i)"
      using fits by (simp only: pow7_Suc)
    from Cons.IH [OF tail this] obtain r where
      r: "Uvarint_loop (v @ rest) (Suc i) ?x (7 * Suc i) = (r, int (Suc i + length v))"
         "unat r = unat ?x + 2 ^ (7 * Suc i) * varint_value v"
      by blast
    have step: "Uvarint_loop ((b # v) @ rest) i x (7 * i)
        = Uvarint_loop (v @ rest) (Suc i) ?x (7 * Suc i)"
      using i b by (simp add: MaxVarintLen64_def add.commute)
    have res: "Uvarint_loop ((b # v) @ rest) i x (7 * i) = (r, int (i + length (b # v)))"
      unfolding step r(1) by simp
    have "unat r = unat x + 2 ^ (7 * i) * unat (b AND 0x7f) + 128 * 2 ^ (7 * i) * varint_value v"
      using r(2) ux by (simp only: pow7_Suc)
    also have "\<dots> = unat x + 2 ^ (7 * i) * varint_value (b # v)"
      by (simp add: algebra_simps)
    finally show ?thesis using res by blast
  qed
qed

lemma is_varint_tail: "is_varint v = varint_tail 0 v"
  by (simp add: is_varint_def varint_tail_def)

lemma Uvarint_loop_prefix:
  "Uvarint_loop buf i x s = (r, n) \<Longrightarrow> 0 < n \<Longrightarrow> i \<le> 10 \<Longrightarrow>
     \<exists>v rest. buf = v @ rest \<and> varint_tail i v \<and> n = int (i + length v)"
proof (induction buf i x s rule: Uvarint_loop.induct)
  case (1 i x s)
  then show ?case by simp
next
  case (2 b buf i x s)
  show ?case
  proof (cases "b < 0x80")
    case True
    with "2.prems" have "i \<noteq> 10" "\<not> (i = 9 \<and> 1 < b)" "n = int i + 1"
      by (auto simp: MaxVarintLen64_def split: if_splits)
    then have "varint_tail i [b]" using True "2.prems"(3)
      by (auto simp: varint_tail_def not_less)
    then show ?thesis using \<open>n = int i + 1\<close> by (intro exI [of _ "[b]"] exI [of _ buf]) simp
  next
    case False
    with "2.prems" have i: "i \<noteq> 10"
      and rec: "Uvarint_loop buf (i + 1) (x OR push_bit s (ucast (b AND 0x7f))) (s + 7) = (r, n)"
      by (auto simp: MaxVarintLen64_def split: if_splits)
    from i "2.prems"(3) have "i + 1 \<le> 10" by simp
    from "2.IH" [OF _ False rec "2.prems"(2) this] i
    obtain v rest where v: "buf = v @ rest" "varint_tail (i + 1) v" "n = int (i + 1 + length v)"
      by (auto simp: MaxVarintLen64_def)
    have "varint_tail i (b # v)"
      using v(2) False by (auto simp: varint_tail_def not_less)
    then show ?thesis using v by (intro exI [of _ "b # v"] exI [of _ rest]) simp
  qed
qed

lemma Uvarint_varint:
  assumes "is_varint v"
  shows "Uvarint (v @ rest) = (of_nat (varint_value v), int (length v))"
    and "varint_value v < 2 ^ 64"
proof -
  from Uvarint_loop_varint [where i = 0 and v = v and x = 0 and rest = rest] assms
  obtain r where r: "Uvarint (v @ rest) = (r, int (length v))" "unat r = varint_value v"
    by (auto simp: is_varint_tail Uvarint_def)
  show "varint_value v < 2 ^ 64"
    using unsigned_less [of r] by (simp add: r(2) [symmetric])
  have "r = of_nat (unat r)" by simp
  then show "Uvarint (v @ rest) = (of_nat (varint_value v), int (length v))"
    using r by simp
qed

lemma Uvarint_prefix:
  assumes "Uvarint buf = (r, n)" and "0 < n"
  shows "\<exists>v rest. buf = v @ rest \<and> is_varint v \<and> n = int (length v) \<and> unat r = varint_value v"
proof -
  from Uvarint_loop_prefix [of buf 0 0 0 r n] assms
  obtain v rest where v: "buf = v @ rest" "is_varint v" "n = int (length v)"
    by (auto simp: is_varint_tail Uvarint_def)
  from Uvarint_varint(1) [OF v(2), of rest] Uvarint_varint(2) [OF v(2)] assms(1) v(1)
  have "r = of_nat (varint_value v)" "varint_value v < 2 ^ 64" by simp_all
  then have "unat r = varint_value v" by (simp add: unat_of_nat)
  then show ?thesis using v by blast
qed

subsection \<open>Records\<close>

lemma loadNextBinaryEntry_record:
  assumes "is_record r" and "length (r @ rest) < 2 ^ 63"
  shows "loadNextBinaryEntry (r @ rest) = (int (length r), None)"
proof -
  from assms(1) obtain v p where r: "r = v @ p" "is_varint v" "length p = varint_value v"
    by (auto simp: is_record_def)
  have U: "Uvarint (v @ p @ rest) = (of_nat (varint_value v), int (length v))"
    using r(2) by (rule Uvarint_varint(1))
  have "varint_value v < 2 ^ 64" using r(2) by (rule Uvarint_varint(2))
  then have u: "uint (of_nat (varint_value v) :: uint64) = int (varint_value v)"
    by (simp add: uint_nat unat_of_nat)
  have "v \<noteq> []" using r(2) by (simp add: is_varint_def)
  then show ?thesis
    using loadNextBinaryEntry_eq [OF assms(2)] by (simp add: U u r(1) r(3))
qed

lemma loadNextBinaryEntry_take:
  assumes "length data < 2 ^ 63" and "loadNextBinaryEntry data = (m, None)"
  shows "0 < m \<and> m \<le> int (length data) \<and> is_record (take (nat m) data)"
proof -
  obtain sz w where U: "Uvarint data = (sz, w)" by (cases "Uvarint data")
  from loadNextBinaryEntry_eq [OF assms(1)] assms(2) U
  have w: "0 < w" and fits: "uint sz \<le> int (length data) - w" and m: "m = w + uint sz"
    by (auto split: if_splits)
  from Uvarint_prefix [OF U w] obtain v rest where
    v: "data = v @ rest" "is_varint v" "w = int (length v)" "unat sz = varint_value v"
    by blast
  have sz: "uint sz = int (varint_value v)" using v(4) by (simp add: uint_nat)
  have le: "varint_value v \<le> length rest" using fits by (simp add: sz v(1) v(3))
  have "take (nat m) data = v @ take (varint_value v) rest"
    by (simp add: m sz v(1) v(3) nat_add_distrib)
  moreover have "length (take (varint_value v) rest) = varint_value v"
    using le by simp
  ultimately have "is_record (take (nat m) data)"
    using v(2) unfolding is_record_def by blast
  moreover have "0 < m" using w unsigned_greater_eq [of sz] by (simp add: m add_pos_nonneg)
  moreover have "m \<le> int (length data)" using fits by (simp add: m)
  ultimately show ?thesis by simp
qed

lemma loadNextBinaryEntry_error:
  "loadNextBinaryEntry data = (m, Some e) \<Longrightarrow> e = ErrCorrupt"
  by (auto simp: loadNextBinaryEntry_def split: prod.splits if_splits)

lemma valid_file_Nil: "valid_file []"
  unfolding valid_file_def by (rule exI [of _ "[]"]) simp

lemma valid_file_Cons:
  "is_record r \<Longrightarrow> valid_file rest \<Longrightarrow> valid_file (r @ rest)"
  unfolding valid_file_def
proof -
  assume r: "is_record r" and "\<exists>rs. rest = concat rs \<and> (\<forall>r\<in>set rs. is_record r)"
  then obtain rs where "rest = concat rs" "\<forall>r\<in>set rs. is_record r" by blast
  then have "r @ rest = concat (r # rs) \<and> (\<forall>r\<in>set (r # rs). is_record r)"
    using r by simp
  then show "\<exists>rs. r @ rest = concat rs \<and> (\<forall>r\<in>set rs. is_record r)" by blast
qed

lemma valid_file_first:
  assumes "valid_file data" and "data \<noteq> []"
  shows "\<exists>r rest. data = r @ rest \<and> is_record r \<and> valid_file rest"
proof -
  from assms(1) obtain rs where rs: "data = concat rs" "\<forall>r\<in>set rs. is_record r"
    by (auto simp: valid_file_def)
  with assms(2) obtain r rs' where "rs = r # rs'" by (cases rs) auto
  with rs have "data = r @ concat rs'" "is_record r" "valid_file (concat rs')"
    by (auto simp: valid_file_def)
  then show ?thesis by blast
qed

lemma valid_file_step:
  assumes "length data < 2 ^ 63" and "data \<noteq> []"
  shows "valid_file data =
    (\<exists>m. loadNextBinaryEntry data = (m, None) \<and> valid_file (drop (nat m) data))"
proof
  assume "valid_file data"
  from valid_file_first [OF this assms(2)] obtain r rest where
    r: "data = r @ rest" "is_record r" "valid_file rest" by blast
  have "loadNextBinaryEntry data = (int (length r), None)"
    using loadNextBinaryEntry_record [OF r(2), of rest] assms(1) by (simp add: r(1))
  moreover have "drop (nat (int (length r))) data = rest" by (simp add: r(1))
  ultimately show "\<exists>m. loadNextBinaryEntry data = (m, None) \<and> valid_file (drop (nat m) data)"
    using r(3) by simp
next
  assume "\<exists>m. loadNextBinaryEntry data = (m, None) \<and> valid_file (drop (nat m) data)"
  then obtain m where m: "loadNextBinaryEntry data = (m, None)" "valid_file (drop (nat m) data)"
    by blast
  from loadNextBinaryEntry_take [OF assms(1) m(1)] have "is_record (take (nat m) data)" by simp
  then have "valid_file (take (nat m) data @ drop (nat m) data)"
    using m(2) by (rule valid_file_Cons)
  then show "valid_file data" by simp
qed

subsection \<open>The loop\<close>

lemma loop_Nil:
  "loadSegmentEntries_loop [] acc cur = Some (Returns (Inr acc))"
  by (subst loadSegmentEntries_loop.simps) (simp add: len_def)

lemma loop_error:
  assumes "data \<noteq> []" and "loadNextBinaryEntry data = (m, Some e)"
  shows "loadSegmentEntries_loop data acc cur =
    Some (Returns (Inl (Wrapped ''failed to load binary entry from log segment'' ErrCorrupt)))"
  using assms loadNextBinaryEntry_error [OF assms(2)]
  by (subst loadSegmentEntries_loop.simps) (simp add: len_def)

lemma loop_step:
  assumes "data \<noteq> []" and "loadNextBinaryEntry data = (m, None)"
    and "0 < m" and "m \<le> int (length data)" and "0 \<le> cur" and "cur + int (length data) < 2 ^ 63"
  shows "loadSegmentEntries_loop data acc cur =
    loadSegmentEntries_loop (drop (nat m) data) (acc @ [\<lparr>pstart = cur, pend = cur + m\<rparr>]) (cur + m)"
proof -
  have "int_add cur m = cur + m"
    using assms(3-6) by (intro int_add_small) auto
  then show ?thesis
    using assms by (subst loadSegmentEntries_loop.simps) (simp add: len_def)
qed

lemma loop_scan:
  assumes "0 \<le> cur" and "cur + int (length data) < 2 ^ 63"
  shows "(valid_file data \<and>
            (\<exists>new. loadSegmentEntries_loop data acc cur = Some (Returns (Inr (acc @ new)))
                \<and> contiguous cur new (cur + int (length data))))
       \<or> (\<not> valid_file data \<and>
            loadSegmentEntries_loop data acc cur =
              Some (Returns (Inl (Wrapped ''failed to load binary entry from log segment'' ErrCorrupt))))"
  using assms
proof (induction "length data" arbitrary: data acc cur rule: less_induct)
  case less
  have len: "length data < 2 ^ 63"
  proof -
    have "int (length data) < 2 ^ 63" using less.prems by simp
    then have "int (length data) < int (2 ^ 63)" by simp
    then show ?thesis by (simp only: of_nat_less_iff)
  qed
  show ?case
  proof (cases "data = []")
    case True
    then show ?thesis by (simp add: loop_Nil valid_file_Nil)
  next
    case False
    obtain m e where L: "loadNextBinaryEntry data = (m, e)"
      by (cases "loadNextBinaryEntry data")
    show ?thesis
    proof (cases e)
      case (Some err)
      then have "\<not> valid_file data"
        using valid_file_step [OF len False] L by simp
      then show ?thesis
        using loop_error [OF False L [unfolded Some]] by simp
    next
      case None
      note L' = L [unfolded None]
      from loadNextBinaryEntry_take [OF len L'] have m: "0 < m" "m \<le> int (length data)"
        by simp_all
      let ?rest = "drop (nat m) data"
      let ?p = "\<lparr>pstart = cur, pend = cur + m\<rparr>"
      have step: "loadSegmentEntries_loop data acc cur
          = loadSegmentEntries_loop ?rest (acc @ [?p]) (cur + m)"
        using False L' m less.prems by (rule loop_step)
      have v: "valid_file data = valid_file ?rest"
        using valid_file_step [OF len False] L' by simp
      have shorter: "length ?rest < length data" using m False by simp
      have lrest: "cur + m + int (length ?rest) = cur + int (length data)"
        using m by simp
      have nonneg: "0 \<le> cur + m" using m less.prems by simp
      have bound: "cur + m + int (length ?rest) < 2 ^ 63"
        using less.prems by (simp only: lrest)
      from less.hyps [OF shorter nonneg bound, of "acc @ [?p]"]
      show ?thesis
      proof (elim disjE conjE exE)
        fix new
        assume a: "valid_file ?rest"
          "loadSegmentEntries_loop ?rest (acc @ [?p]) (cur + m) = Some (Returns (Inr ((acc @ [?p]) @ new)))"
          "contiguous (cur + m) new (cur + m + int (length ?rest))"
        have "contiguous (cur + m) new (cur + int (length data))"
          using a(3) by (simp only: lrest)
        then have "contiguous cur (?p # new) (cur + int (length data))"
          using m(1) by simp
        moreover have "loadSegmentEntries_loop data acc cur = Some (Returns (Inr (acc @ ?p # new)))"
          using a(2) by (simp add: step)
        ultimately show ?thesis using a(1) v by blast
      next
        assume "\<not> valid_file ?rest"
          "loadSegmentEntries_loop ?rest (acc @ [?p]) (cur + m) =
            Some (Returns (Inl (Wrapped ''failed to load binary entry from log segment'' ErrCorrupt)))"
        then show ?thesis using v by (simp add: step)
      qed
    qed
  qed
qed

lemma contiguous_le: "contiguous a ps b \<Longrightarrow> a \<le> b"
  by (induction ps arbitrary: a) force+

lemma contiguous_ends:
  "contiguous a ps b \<Longrightarrow> ps \<noteq> [] \<Longrightarrow> pstart (hd ps) = a \<and> pend (last ps) = b"
  by (induction ps arbitrary: a) (auto split: if_splits)

lemma contiguous_adjacent:
  "contiguous a ps b \<Longrightarrow> Suc i < length ps \<Longrightarrow> pend (ps ! i) = pstart (ps ! Suc i)"
proof (induction ps arbitrary: a i)
  case Nil
  then show ?case by simp
next
  case (Cons p ps)
  show ?case
  proof (cases i)
    case 0
    with Cons.prems obtain q qs where "ps = q # qs" by (cases ps) auto
    with Cons.prems 0 show ?thesis by simp
  next
    case (Suc j)
    with Cons.prems Cons.IH [of "pend p" j] show ?thesis by simp
  qed
qed

lemma contiguous_nonempty:
  "contiguous a ps b \<Longrightarrow> p \<in> set ps \<Longrightarrow> pstart p < pend p"
  by (induction ps arbitrary: a) auto

subsection \<open>\<open>loadSegmentEntries\<close>\<close>

text \<open>
  On the contents of a file, the method either loads a valid file, with ranges that are
  contiguous from 0 to the length of the file, or rejects a file that is not valid.
\<close>

lemma loadSegmentEntries_scan:
  assumes "os_ReadFile fs (segment.path seg) = (data, None)" and "length data < 2 ^ 63"
  shows "(valid_file data \<and>
            (\<exists>pos. loadSegmentEntries fs seg = Some (Returns (seg\<lparr>cbuf := data, cpos := pos\<rparr>, None))
                \<and> contiguous 0 pos (int (length data))))
       \<or> (\<not> valid_file data \<and>
            loadSegmentEntries fs seg =
              Some (Returns (seg, Some (Wrapped ''failed to load binary entry from log segment'' ErrCorrupt))))"
proof -
  have "(0::int) \<le> 0" "0 + int (length data) < 2 ^ 63"
    using int_length_bound [OF assms(2)] by simp_all
  from loop_scan [OF this, of "[]"] show ?thesis
    by (auto simp: loadSegmentEntries_def assms(1))
qed

text \<open>
  Claim C2: for every byte buffer that is the full contents of a segment's file (read
  without error, and shorter than \<open>2 ^ 63\<close> as every Go slice is),
  \<open>loadSegmentEntries\<close> returns without error if and only if the buffer is a valid
  file: empty, or a whole number of length-prefixed records with no partial record at the
  end. On any other buffer the scan stops at the first record that does not decode, the
  segment is left as it was, and the method returns an error that wraps
  \<open>ErrCorrupt\<close>. The method always returns: it neither panics nor runs forever.
\<close>

theorem loadSegmentEntries_valid_iff:
  assumes "os_ReadFile fs (segment.path seg) = (data, None)" and "length data < 2 ^ 63"
  shows "(\<exists>seg'. loadSegmentEntries fs seg = Some (Returns (seg', None))) = valid_file data
       \<and> (\<not> valid_file data \<longrightarrow>
            (\<exists>e. loadSegmentEntries fs seg = Some (Returns (seg, Some e)) \<and> errors_Is e ErrCorrupt))"
  using loadSegmentEntries_scan [OF assms] by auto

text \<open>
  Claim C10: whenever \<open>loadSegmentEntries\<close> succeeds on a segment, the recorded
  byte ranges are a contiguous partition of the cached buffer: the position table is
  empty exactly when the buffer is; otherwise the first range starts at 0 and the last
  ends at the buffer's length; each range ends where the next starts; and no range is
  empty.
\<close>

theorem loadSegmentEntries_partition:
  assumes "loadSegmentEntries fs seg = Some (Returns (seg', None))"
    and "length (cbuf seg') < 2 ^ 63"
  shows "(cpos seg' = [] \<longleftrightarrow> cbuf seg' = [])
       \<and> (cpos seg' \<noteq> [] \<longrightarrow>
            pstart (hd (cpos seg')) = 0 \<and> pend (last (cpos seg')) = int (length (cbuf seg')))
       \<and> (\<forall>i. Suc i < length (cpos seg') \<longrightarrow> pend (cpos seg' ! i) = pstart (cpos seg' ! Suc i))
       \<and> (\<forall>p \<in> set (cpos seg'). pstart p < pend p)"
proof -
  obtain data e where R: "os_ReadFile fs (segment.path seg) = (data, e)"
    by (cases "os_ReadFile fs (segment.path seg)")
  have e: "e = None"
    using assms(1) R by (cases e) (auto simp: loadSegmentEntries_def)
  have d: "cbuf seg' = data"
    using assms(1) R e
    by (auto simp: loadSegmentEntries_def split: option.splits exec.splits sum.splits)
  from loadSegmentEntries_scan [OF R [unfolded e] assms(2) [unfolded d]] assms(1)
  have c: "contiguous 0 (cpos seg') (int (length (cbuf seg')))"
    by (auto simp: d)
  have "cpos seg' = [] \<longleftrightarrow> cbuf seg' = []"
  proof
    assume "cpos seg' = []"
    with c show "cbuf seg' = []" by simp
  next
    assume "cbuf seg' = []"
    with c show "cpos seg' = []" by (cases "cpos seg'") (auto dest: contiguous_le)
  qed
  then show ?thesis
    using contiguous_ends [OF c] contiguous_adjacent [OF c] contiguous_nonempty [OF c] by blast
qed

subsection \<open>The scan of two example files\<close>

lemma loop_Cons:
  "loadSegmentEntries_loop (b # bs) acc cur =
     (case loadNextBinaryEntry (b # bs) of
        (n, Some err) \<Rightarrow>
          Some (Returns (Inl (Wrapped ''failed to load binary entry from log segment'' err)))
      | (n, None) \<Rightarrow>
          if n < 0 \<or> len (b # bs) < n then Some (Panics ''slice bounds out of range'')
          else loadSegmentEntries_loop (drop (nat n) (b # bs))
                 (acc @ [\<lparr>pstart = cur, pend = int_add cur n\<rparr>]) (int_add cur n))"
  by (subst loadSegmentEntries_loop.simps) (simp add: len_def)

lemmas step_defs = loadNextBinaryEntry_def Uvarint_def MaxVarintLen64_def
  uint64_of_int_def len_def int_add_def int_of_uint64_def

lemmas eval_defs = loop_Cons loop_Nil step_defs

lemma scan_example_valid: "loadSegmentEntries_loop [3, 1, 2, 3, 0, 1, 9] [] 0 =
   Some (Returns (Inr [\<lparr>pstart = 0, pend = 4\<rparr>, \<lparr>pstart = 4, pend = 5\<rparr>, \<lparr>pstart = 5, pend = 7\<rparr>]))"
  by (simp add: eval_defs)

lemma os_ReadFile_example: "os_ReadFile (fs_example d) (segment.path seg_example) = (d, None)"
  by (simp add: os_ReadFile_def fs_example_def seg_example_def)

lemma loadSegmentEntries_example_valid: "loadSegmentEntries (fs_example [3, 1, 2, 3, 0, 1, 9]) seg_example =
   Some (Returns (seg_example\<lparr>cbuf := [3, 1, 2, 3, 0, 1, 9], cpos := [\<lparr>pstart = 0, pend = 4\<rparr>, \<lparr>pstart = 4, pend = 5\<rparr>, \<lparr>pstart = 5, pend = 7\<rparr>]\<rparr>, None))"
  by (simp add: loadSegmentEntries_def os_ReadFile_example scan_example_valid)

lemma scan_example_corrupt: "loadSegmentEntries_loop [3, 1, 2, 3, 0, 2, 9] [] 0 =
   Some (Returns (Inl (Wrapped ''failed to load binary entry from log segment'' ErrCorrupt)))"
  apply (subst loop_Cons)
  apply (simp add: step_defs)
  apply (subst loop_Cons)
  apply (simp add: step_defs)
  apply (subst loop_Cons)
  apply (simp add: step_defs)
  done

lemma loadSegmentEntries_example_corrupt: "loadSegmentEntries (fs_example [3, 1, 2, 3, 0, 2, 9]) seg_example =
   Some (Returns (seg_example, Some (Wrapped ''failed to load binary entry from log segment'' ErrCorrupt)))"
  by (simp add: loadSegmentEntries_def os_ReadFile_example scan_example_corrupt)

text \<open>
  Witness of C2: a file of three records (payloads of 3, 0 and 1 bytes) is valid and is
  loaded; the same file with a last record that declares 2 bytes and holds 1 is not
  valid, and loading it returns the error that wraps \<open>ErrCorrupt\<close>.
\<close>

theorem loadSegmentEntries_valid_iff_witness:
  "os_ReadFile (fs_example [3, 1, 2, 3, 0, 1, 9]) (segment.path seg_example) = ([3, 1, 2, 3, 0, 1, 9], None)
   \<and> length [3, 1, 2, 3, 0, 1, 9 :: byte] < 2 ^ 63
   \<and> valid_file [3, 1, 2, 3, 0, 1, 9]
   \<and> loadSegmentEntries (fs_example [3, 1, 2, 3, 0, 1, 9]) seg_example =
       Some (Returns (seg_example\<lparr>cbuf := [3, 1, 2, 3, 0, 1, 9],
         cpos := [\<lparr>pstart = 0, pend = 4\<rparr>, \<lparr>pstart = 4, pend = 5\<rparr>, \<lparr>pstart = 5, pend = 7\<rparr>]\<rparr>, None))
   \<and> os_ReadFile (fs_example [3, 1, 2, 3, 0, 2, 9]) (segment.path seg_example) = ([3, 1, 2, 3, 0, 2, 9], None)
   \<and> \<not> valid_file [3, 1, 2, 3, 0, 2, 9]
   \<and> loadSegmentEntries (fs_example [3, 1, 2, 3, 0, 2, 9]) seg_example =
       Some (Returns (seg_example, Some (Wrapped ''failed to load binary entry from log segment'' ErrCorrupt)))
   \<and> errors_Is (Wrapped ''failed to load binary entry from log segment'' ErrCorrupt) ErrCorrupt"
proof -
  have l: "length [3, 1, 2, 3, 0, 1, 9 :: byte] < 2 ^ 63" "length [3, 1, 2, 3, 0, 2, 9 :: byte] < 2 ^ 63"
    by simp_all
  note good = loadSegmentEntries_valid_iff [OF os_ReadFile_example l(1)]
  note bad = loadSegmentEntries_valid_iff [OF os_ReadFile_example l(2)]
  have "valid_file [3, 1, 2, 3, 0, 1, 9]"
    using good by (auto simp: loadSegmentEntries_example_valid)
  moreover have "\<not> valid_file [3, 1, 2, 3, 0, 2, 9]"
    using bad by (auto simp: loadSegmentEntries_example_corrupt)
  ultimately show ?thesis
    by (simp add: loadSegmentEntries_example_valid loadSegmentEntries_example_corrupt os_ReadFile_example)
qed

text \<open>
  Witness of C10: the three ranges of the valid example file, from 0 to its length 7.
\<close>

theorem loadSegmentEntries_partition_witness:
  "loadSegmentEntries (fs_example [3, 1, 2, 3, 0, 1, 9]) seg_example =
       Some (Returns (seg_example\<lparr>cbuf := [3, 1, 2, 3, 0, 1, 9],
         cpos := [\<lparr>pstart = 0, pend = 4\<rparr>, \<lparr>pstart = 4, pend = 5\<rparr>, \<lparr>pstart = 5, pend = 7\<rparr>]\<rparr>, None))
   \<and> length [3, 1, 2, 3, 0, 1, 9 :: byte] < 2 ^ 63
   \<and> pstart (hd [\<lparr>pstart = 0, pend = 4\<rparr>, \<lparr>pstart = 4, pend = 5\<rparr>, \<lparr>pstart = 5, pend = 7\<rparr>]) = 0
   \<and> pend (last [\<lparr>pstart = 0, pend = 4\<rparr>, \<lparr>pstart = 4, pend = 5\<rparr>, \<lparr>pstart = 5, pend = 7\<rparr>])
        = int (length [3, 1, 2, 3, 0, 1, 9 :: byte])"
  using loadSegmentEntries_partition [OF loadSegmentEntries_example_valid] by (simp add: loadSegmentEntries_example_valid)

section \<open>Properties of recovery\<close>

subsection \<open>The file system\<close>

lemma os_ReadDir_sorted:
  assumes "os_ReadDir fs dir = (files, None)"
  shows "sorted_wrt (<) (map Name files)"
proof -
  let ?names = "sort (remdups (child_names (nodes fs) dir))"
  from assms have "map Name files = ?names"
    by (auto simp: os_ReadDir_def comp_def split: option.splits node.splits)
  moreover have "sorted ?names \<and> distinct ?names" by simp
  ultimately show ?thesis by (simp add: strict_sorted_iff)
qed

lemma O_WRONLY_bits: "O_WRONLY AND 3 \<noteq> 0" "O_WRONLY AND O_TRUNC = 0" "O_WRONLY AND O_CREATE = 0"
  by (simp_all add: O_WRONLY_def O_TRUNC_def O_CREATE_def)

lemma os_OpenFile_WRONLY:
  assumes "os_OpenFile fs p O_WRONLY perm = (file, fs1, None)"
  shows "fs1 = fs \<and> file = Some \<lparr>name = p, flag = O_WRONLY, offset = 0\<rparr>
    \<and> (\<exists>d m. map_of (nodes fs) p = Some (RegularFile d m))"
  using assms
  by (auto simp: os_OpenFile_def O_WRONLY_bits split: option.splits node.splits if_splits)

lemma File_Seek_end:
  assumes "File_Seek fs (Some f) 0 2 = (file', pos, None)"
    and "map_of (nodes fs) (name f) = Some (RegularFile d m)"
  shows "file' = Some (f\<lparr>offset := int (length d)\<rparr>) \<and> pos = int (length d)"
  using assms
  by (auto simp: File_Seek_def Let_def len_def split: option.splits if_splits)

lemma File_Seek_nil: "File_Seek fs None off whence = (file', pos, err) \<Longrightarrow> err \<noteq> None"
  by (auto simp: File_Seek_def)

lemma os_ReadFile_ok:
  assumes "os_ReadFile fs p = (data, None)"
  shows "\<exists>m. map_of (nodes fs) p = Some (RegularFile data m)"
  using assms by (auto simp: os_ReadFile_def split: option.splits node.splits)

subsection \<open>Names and indices\<close>

lemma decimal_value_split:
  "decimal_value a s = a * 10 ^ length s + decimal_value 0 s"
proof (induction s arbitrary: a)
  case Nil
  show ?case by (simp add: decimal_value_Nil)
next
  case (Cons c cs)
  have "decimal_value a (c # cs) = decimal_value (10 * a + digit_value c) cs"
    by (rule decimal_value_Cons)
  also have "\<dots> = (10 * a + digit_value c) * 10 ^ length cs + decimal_value 0 cs"
    by (rule Cons.IH)
  also have "decimal_value 0 (c # cs) = digit_value c * 10 ^ length cs + decimal_value 0 cs"
    using Cons.IH [of "digit_value c"] by (simp add: decimal_value_Cons)
  then have "(10 * a + digit_value c) * 10 ^ length cs + decimal_value 0 cs
      = a * 10 ^ length (c # cs) + decimal_value 0 (c # cs)"
    by (simp add: algebra_simps)
  finally show ?case .
qed

lemma digit_value_less: "is_digit c \<Longrightarrow> digit_value c < 10"
  by (auto simp: is_digit_iff digit_value_def)

lemma digit_value_mono: "is_digit c \<Longrightarrow> is_digit d \<Longrightarrow> c < d \<Longrightarrow> digit_value c < digit_value d"
  by (auto simp: is_digit_iff digit_value_def less_char_def)

lemma decimal_value_bound:
  "\<forall>c \<in> set s. is_digit c \<Longrightarrow> decimal_value 0 s < 10 ^ length s"
proof (induction s)
  case Nil
  show ?case by (simp add: decimal_value_Nil)
next
  case (Cons c cs)
  have d: "digit_value c \<le> 9" using Cons.prems digit_value_less [of c] by simp
  have v: "decimal_value 0 cs < 10 ^ length cs" using Cons by simp
  have "decimal_value 0 (c # cs) = digit_value c * 10 ^ length cs + decimal_value 0 cs"
    using decimal_value_split [of "digit_value c" cs] by (simp add: decimal_value_Cons)
  also have "\<dots> < 9 * 10 ^ length cs + 10 ^ length cs"
    using d v by (intro add_le_less_mono mult_le_mono1)
  finally show ?case by simp
qed

lemma decimal_value_less:
  assumes "length s = length t" and "\<forall>c \<in> set s. is_digit c" and "\<forall>c \<in> set t. is_digit c"
    and "s < t"
  shows "decimal_value 0 s < decimal_value 0 t"
  using assms
proof (induction s t rule: list_induct2)
  case Nil
  then show ?case by simp
next
  case (Cons c cs d ds)
  have s: "decimal_value 0 (c # cs) = digit_value c * 10 ^ length cs + decimal_value 0 cs"
    using decimal_value_split [of "digit_value c" cs] by (simp add: decimal_value_Cons)
  have t: "decimal_value 0 (d # ds) = digit_value d * 10 ^ length ds + decimal_value 0 ds"
    using decimal_value_split [of "digit_value d" ds] by (simp add: decimal_value_Cons)
  from Cons.prems(3) consider "c < d" | "c = d" "cs < ds" by auto
  then show ?case
  proof cases
    case 1
    then have "Suc (digit_value c) \<le> digit_value d"
      using digit_value_mono [of c d] Cons.prems by simp
    then have "Suc (digit_value c) * 10 ^ length cs \<le> digit_value d * 10 ^ length cs"
      by (rule mult_le_mono1)
    moreover have "decimal_value 0 cs < 10 ^ length cs"
      using Cons.prems by (intro decimal_value_bound) simp
    ultimately show ?thesis using Cons.hyps by (simp add: s t)
  next
    case 2
    then have "decimal_value 0 cs < decimal_value 0 ds"
      using Cons.IH Cons.prems by simp
    then show ?thesis unfolding s t using 2(1) Cons.hyps by simp
  qed
qed

lemma segment_index_less:
  assumes "segment_file_name a" and "segment_file_name b" and "a < b"
  shows "(of_nat (decimal_value 0 a) :: uint64) < of_nat (decimal_value 0 b)"
proof -
  have "decimal_value 0 a < decimal_value 0 b"
    using assms by (intro decimal_value_less) (simp_all add: segment_file_name_def)
  moreover have "decimal_value 0 a < 2 ^ 64" "decimal_value 0 b < 2 ^ 64"
    using assms by (simp_all add: segment_file_name_def)
  ultimately show ?thesis
    by (simp add: word_less_nat_alt unat_of_nat)
qed

lemma registered_sorted:
  assumes "sorted_wrt (<) (map Name files)"
  shows "sorted_wrt (<) (map index (loadSegments_loop lpath files []))"
proof -
  let ?P = "\<lambda>f. \<not> IsDir f \<and> segment_file_name (Name f)"
  have "sorted_wrt (\<lambda>x y. Name x < Name y) (filter ?P files)"
    using assms by (simp add: sorted_wrt_map sorted_wrt_filter)
  then have "sorted_wrt (\<lambda>x y. (of_nat (decimal_value 0 (Name x)) :: uint64)
      < of_nat (decimal_value 0 (Name y))) (filter ?P files)"
    by (rule sorted_wrt_mono_rel [rotated]) (auto intro: segment_index_less)
  then show ?thesis
    by (simp add: loadSegments_loop_eq sorted_wrt_map comp_def)
qed

lemma loadSegmentEntries_fields:
  assumes "loadSegmentEntries fs seg = Some (Returns (seg', e))"
  shows "index seg' = index seg \<and> segment.path seg' = segment.path seg"
  using assms
  by (auto simp: loadSegmentEntries_def split: prod.splits option.splits exec.splits sum.splits)

lemma loadSegmentEntries_success:
  assumes "loadSegmentEntries fs seg = Some (Returns (seg', None))"
  shows "\<exists>d m pos. map_of (nodes fs) (segment.path seg) = Some (RegularFile d m)
    \<and> loadSegmentEntries_loop d [] 0 = Some (Returns (Inr pos))
    \<and> seg' = seg\<lparr>cbuf := d, cpos := pos\<rparr>"
proof -
  obtain data e where R: "os_ReadFile fs (segment.path seg) = (data, e)"
    by (cases "os_ReadFile fs (segment.path seg)")
  have e: "e = None"
    using assms R by (cases e) (auto simp: loadSegmentEntries_def)
  from os_ReadFile_ok [OF R [unfolded e]] obtain m where
    "map_of (nodes fs) (segment.path seg) = Some (RegularFile data m)" by blast
  then show ?thesis
    using assms R e
    by (auto simp: loadSegmentEntries_def split: option.splits exec.splits sum.splits)
qed

lemma openLastSegment_frame:
  assumes "openLastSegment fs l k = Some (Returns (l', fs', err))"
  shows "map index (segments l') = map index (segments l)
    \<and> map segment.path (segments l') = map segment.path (segments l)
    \<and> corrupt l' = corrupt l \<and> closed l' = closed l \<and> config l' = config l
    \<and> Log.path l' = Log.path l"
proof -
  have upd: "map index ((segments l)[k := s]) = map index (segments l)
      \<and> map segment.path ((segments l)[k := s]) = map segment.path (segments l)"
    if "index s = index (segments l ! k)" "segment.path s = segment.path (segments l ! k)" for s
    using that by (simp add: map_update list_update_same_conv) (metis list_update_id map_update)
  show ?thesis
    using assms upd
    by (auto simp: openLastSegment_def Let_def
        split: prod.splits option.splits exec.splits dest!: loadSegmentEntries_fields)
qed

subsection \<open>Opening the tail\<close>

lemma openLastSegment_success:
  assumes "openLastSegment fs l k = Some (Returns (l', fs', None))"
  shows "\<exists>d m pos. map_of (nodes fs) (segment.path (segments l ! k)) = Some (RegularFile d m)
    \<and> loadSegmentEntries_loop d [] 0 = Some (Returns (Inr pos))
    \<and> fs' = fs
    \<and> l' = l\<lparr>segments := (segments l)[k := (segments l ! k)\<lparr>cbuf := d, cpos := pos\<rparr>],
              sfile := Some \<lparr>name = segment.path (segments l ! k), flag = O_WRONLY,
                             offset = int (length d)\<rparr>\<rparr>"
proof -
  let ?seg = "segments l ! k"
  obtain fh fs1 e1 where O: "os_OpenFile fs (segment.path ?seg) O_WRONLY (FilePerms (config l)) = (fh, fs1, e1)"
    by (cases "os_OpenFile fs (segment.path ?seg) O_WRONLY (FilePerms (config l))")
  have e1: "e1 = None"
    using assms O by (cases e1) (auto simp: openLastSegment_def Let_def)
  from os_OpenFile_WRONLY [OF O [unfolded e1]] obtain d m where
    o: "fs1 = fs" "fh = Some \<lparr>name = segment.path ?seg, flag = O_WRONLY, offset = 0\<rparr>"
       "map_of (nodes fs) (segment.path ?seg) = Some (RegularFile d m)"
    by blast
  obtain fh' pos e2 where S: "File_Seek fs fh 0 2 = (fh', pos, e2)"
    by (cases "File_Seek fs fh 0 2")
  have e2: "e2 = None"
    using assms O e1 o(1) S by (cases e2) (auto simp: openLastSegment_def Let_def)
  have f': "fh' = Some \<lparr>name = segment.path ?seg, flag = O_WRONLY, offset = int (length d)\<rparr>"
    using File_Seek_end [OF S [unfolded e2 o(2)]] o(3) by simp
  from assms O e1 o(1) S e2 obtain seg' where
    L: "loadSegmentEntries fs ?seg = Some (Returns (seg', None))"
    and l': "l' = l\<lparr>segments := (segments l)[k := seg'], sfile := fh'\<rparr>" and "fs' = fs"
    by (auto simp: openLastSegment_def Let_def split: option.splits exec.splits)
  from loadSegmentEntries_success [OF L] o(3) obtain ps where
    "loadSegmentEntries_loop d [] 0 = Some (Returns (Inr ps))" "seg' = ?seg\<lparr>cbuf := d, cpos := ps\<rparr>"
    by auto
  then show ?thesis using o(3) l' f' \<open>fs' = fs\<close> by blast
qed

lemma loadSegments_loop_segment_files:
  "loadSegments_loop lpath files [] = map (registered lpath) (segment_files files)"
  by (simp add: loadSegments_loop_eq segment_files_def registered_def)

lemma loadSegments_found:
  assumes "segments l = []" and "os_ReadDir fs (Log.path l) = (files, None)"
    and "segment_files files \<noteq> []"
  shows "loadSegments fs l =
    (case openLastSegment fs (l\<lparr>segments := map (registered (Log.path l)) (segment_files files)\<rparr>)
            (length (segment_files files) - 1) of
       None \<Rightarrow> None
     | Some (Panics m) \<Rightarrow> Some (Panics m)
     | Some (Returns (l2, fs2, Some err)) \<Rightarrow>
         Some (Returns (l2, fs2, Some (Wrapped ''failed to open last log segment'' err)))
     | Some (Returns (l2, fs2, None)) \<Rightarrow> Some (Returns (l2, fs2, None)))"
  using assms
  by (simp add: loadSegments_def Let_def len_def loadSegments_loop_segment_files)

lemma loadSegments_none_found:
  assumes "segments l = []" and "os_ReadDir fs (Log.path l) = (files, None)"
    and "segment_files files = []"
  shows "loadSegments fs l =
    (case createInitialSegment fs l of
       (l2, fs2, Some err) \<Rightarrow>
         Some (Returns (l2, fs2, Some (Wrapped ''failed to create initial log segment'' err)))
     | (l2, fs2, None) \<Rightarrow> Some (Returns (l2, fs2, None)))"
proof -
  have eq: "l\<lparr>segments := []\<rparr> = l" using assms(1) by simp
  show ?thesis
    by (simp add: loadSegments_def Let_def len_def loadSegments_loop_segment_files assms eq)
qed

lemma createInitialSegment_frame:
  assumes "createInitialSegment fs l = (l', fs', err)"
  shows "segments l' = segments l @
      [\<lparr>segment.path = Join (Log.path l) (segmentName 1), index = 1, cbuf = [], cpos = []\<rparr>]
    \<and> corrupt l' = corrupt l"
  using assms by (auto simp: createInitialSegment_def Let_def split: prod.splits option.splits)

lemma loadSegments_sorted_lemma:
  assumes "segments l = []" and "loadSegments fs l = Some (Returns (l', fs', None))"
  shows "segments l' \<noteq> [] \<and> sorted_wrt (<) (map index (segments l'))"
proof -
  obtain files e where R: "os_ReadDir fs (Log.path l) = (files, e)"
    by (cases "os_ReadDir fs (Log.path l)")
  have e: "e = None" using assms(2) R by (cases e) (auto simp: loadSegments_def)
  note R = R [unfolded e]
  show ?thesis
  proof (cases "segment_files files = []")
    case True
    from assms(2) obtain err where "createInitialSegment fs l = (l', fs', err)"
      unfolding loadSegments_none_found [OF assms(1) R True]
      by (auto split: prod.splits option.splits)
    from createInitialSegment_frame [OF this] show ?thesis
      using assms(1) by simp
  next
    case False
    let ?l1 = "l\<lparr>segments := map (registered (Log.path l)) (segment_files files)\<rparr>"
    from assms(2) obtain err where
      "openLastSegment fs ?l1 (length (segment_files files) - 1) = Some (Returns (l', fs', err))"
      unfolding loadSegments_found [OF assms(1) R False]
      by (auto split: prod.splits option.splits exec.splits)
    from openLastSegment_frame [OF this]
    have m: "map index (segments l') = map index (map (registered (Log.path l)) (segment_files files))"
      by simp
    have "sorted_wrt (<) (map index (loadSegments_loop (Log.path l) files []))"
      using os_ReadDir_sorted [OF R] by (rule registered_sorted)
    then have "sorted_wrt (<) (map index (segments l'))"
      by (simp only: m loadSegments_loop_segment_files)
    moreover have "segments l' \<noteq> []"
      using m False by (metis map_is_Nil_conv)
    ultimately show ?thesis by simp
  qed
qed

lemma strict_sorted_last: "sorted_wrt (<) (xs :: 'a::linorder list) \<Longrightarrow> x \<in> set xs \<Longrightarrow> x \<le> last xs"
proof (induction xs)
  case Nil
  then show ?case by simp
next
  case (Cons a xs)
  then show ?case by (cases "xs = []") (auto intro: order_trans less_imp_le)
qed

lemma segment_files_names_sorted:
  assumes "os_ReadDir fs dir = (files, None)"
  shows "sorted_wrt (<) (map Name (segment_files files))"
  using os_ReadDir_sorted [OF assms]
  by (simp add: segment_files_def sorted_wrt_map sorted_wrt_filter)

lemma registered_index_sorted:
  assumes "os_ReadDir fs dir = (files, None)"
  shows "sorted_wrt (<) (map (\<lambda>f. index (registered lpath f)) (segment_files files))"
  using registered_sorted [OF os_ReadDir_sorted [OF assms], of lpath]
  by (simp add: loadSegments_loop_segment_files comp_def)

lemma list_update_last: "xs \<noteq> [] \<Longrightarrow> xs[length xs - 1 := x] = butlast xs @ [x]"
  by (induction xs rule: rev_induct) simp_all

subsection \<open>The first segment\<close>

lemma child_names_member:
  assumes "map_of ns (Join dir n) = Some nd" and "n \<noteq> []" and "CHR ''/'' \<notin> set n"
  shows "n \<in> set (child_names ns dir)"
proof -
  from assms(1) have "(Join dir n, nd) \<in> set ns" by (rule map_of_SomeD)
  moreover have "take (length dir + 1) (Join dir n) = dir @ ''/''"
    "drop (length dir + 1) (Join dir n) = n"
    by (simp_all add: Join_def)
  ultimately show ?thesis
    using assms(2,3) unfolding child_names_def List.map_filter_def
    by (auto simp: Let_def image_iff intro!: bexI [of _ "(Join dir n, nd)"])
qed

lemma os_ReadDir_entries:
  assumes "os_ReadDir fs dir = (files, None)"
  shows "map_of (nodes fs) dir = Some Directory"
    and "set files = (\<lambda>n. \<lparr>Name = n, IsDir = (map_of (nodes fs) (Join dir n) = Some Directory)\<rparr>)
            ` set (child_names (nodes fs) dir)"
  using assms by (auto simp: os_ReadDir_def split: option.splits node.splits)

lemma Dir_Join:
  assumes "CHR ''/'' \<notin> set n"
  shows "Dir (Join dir n) = dir"
proof -
  have "dropWhile (\<lambda>c. c \<noteq> CHR ''/'') (rev n) = []"
    using assms by (auto simp: dropWhile_eq_Nil_conv)
  then show ?thesis
    by (simp add: Dir_def Join_def dropWhile_append)
qed

lemma segmentName_1: "segmentName 1 = ''00000000000000000001''"
  by code_simp

lemma segment_file_name_1: "segment_file_name ''00000000000000000001''"
  by (simp add: segment_file_name_def is_digit_def decimal_value_def digit_value_def)

lemma create_flags: "(O_CREATE OR O_RDWR OR O_TRUNC) AND 3 \<noteq> 0"
  "(O_CREATE OR O_RDWR OR O_TRUNC) AND O_CREATE \<noteq> 0"
  by (simp_all add: O_CREATE_def O_RDWR_def O_TRUNC_def)

lemma os_OpenFile_create:
  assumes "os_ReadDir fs dir = (files, None)" and "segment_files files = []"
    and "os_OpenFile fs (Join dir ''00000000000000000001'') (O_CREATE OR O_RDWR OR O_TRUNC) perm
          = (fh, fs', None)"
  shows "fh = Some \<lparr>name = Join dir ''00000000000000000001'',
                    flag = O_CREATE OR O_RDWR OR O_TRUNC, offset = 0\<rparr>
    \<and> map_of (nodes fs) (Join dir ''00000000000000000001'') = None
    \<and> map_of (nodes fs') (Join dir ''00000000000000000001'') = Some (RegularFile [] perm)"
proof -
  let ?n = "''00000000000000000001''"
  let ?p = "Join dir ?n"
  have not_file: "map_of (nodes fs) ?p \<noteq> Some (RegularFile d m)" for d m
  proof
    assume a: "map_of (nodes fs) ?p = Some (RegularFile d m)"
    then have "?n \<in> set (child_names (nodes fs) dir)"
      by (rule child_names_member) simp_all
    then have "\<lparr>Name = ?n, IsDir = (map_of (nodes fs) ?p = Some Directory)\<rparr> \<in> set files"
      unfolding os_ReadDir_entries(2) [OF assms(1)] by (rule imageI)
    then have "\<lparr>Name = ?n, IsDir = False\<rparr> \<in> set files" by (simp add: a)
    then have "\<lparr>Name = ?n, IsDir = False\<rparr> \<in> set (segment_files files)"
      by (simp add: segment_files_def segment_file_name_1)
    then show False by (simp add: assms(2))
  qed
  have dir: "map_of (nodes fs) (Dir ?p) = Some Directory"
    using os_ReadDir_entries(1) [OF assms(1)] by (simp add: Dir_Join)
  show ?thesis
  proof (cases "map_of (nodes fs) ?p")
    case None
    then show ?thesis
      using assms(3) dir
      by (auto simp: os_OpenFile_def create_flags split: option.splits if_splits)
  next
    case (Some nd)
    then show ?thesis
      using assms(3) not_file
      by (cases nd) (auto simp: os_OpenFile_def create_flags split: option.splits if_splits)
  qed
qed

subsection \<open>Recovery on the example directories\<close>

lemma ReadDir_example:
  "os_ReadDir (fs_example d) ''/wal'' = ([\<lparr>Name = ''00000000000000000001'', IsDir = False\<rparr>], None)"
  by (simp add: os_ReadDir_def fs_example_def child_names_def List.map_filter_def Join_def)

lemma ReadDir_segments:
  "os_ReadDir fs_segments ''/wal'' =
     ([\<lparr>Name = ''00000000000000000001'', IsDir = False\<rparr>,
       \<lparr>Name = ''00000000000000000002'', IsDir = False\<rparr>,
       \<lparr>Name = ''00000000000000000010'', IsDir = False\<rparr>,
       \<lparr>Name = ''notes.txt'', IsDir = False\<rparr>], None)"
  by code_simp

lemma ReadDir_empty: "os_ReadDir fs_empty ''/wal'' = ([], None)"
  by (simp add: os_ReadDir_def fs_empty_def child_names_def List.map_filter_def)

lemma segment_files_example:
  "segment_files [\<lparr>Name = ''00000000000000000001'', IsDir = False\<rparr>]
     = [\<lparr>Name = ''00000000000000000001'', IsDir = False\<rparr>]"
  by (simp add: segment_files_def segment_file_name_1)

lemma segment_files_segments:
  "segment_files
     [\<lparr>Name = ''00000000000000000001'', IsDir = False\<rparr>,
       \<lparr>Name = ''00000000000000000002'', IsDir = False\<rparr>,
       \<lparr>Name = ''00000000000000000010'', IsDir = False\<rparr>,
       \<lparr>Name = ''notes.txt'', IsDir = False\<rparr>]
   = [\<lparr>Name = ''00000000000000000001'', IsDir = False\<rparr>,
       \<lparr>Name = ''00000000000000000002'', IsDir = False\<rparr>,
       \<lparr>Name = ''00000000000000000010'', IsDir = False\<rparr>]"
  by (simp add: segment_files_def segment_file_name_def is_digit_def decimal_value_def digit_value_def)

lemma os_OpenFile_example:
  "os_OpenFile (fs_example d) ''/wal/00000000000000000001'' O_WRONLY perm =
     (Some \<lparr>name = ''/wal/00000000000000000001'', flag = O_WRONLY, offset = 0\<rparr>,
      fs_example d, None)"
  by (simp add: os_OpenFile_def fs_example_def O_WRONLY_bits)

lemma File_Seek_example:
  "File_Seek (fs_example d) (Some \<lparr>name = ''/wal/00000000000000000001'', flag = fl, offset = 0\<rparr>) 0 2 =
     (Some \<lparr>name = ''/wal/00000000000000000001'', flag = fl, offset = int (length d)\<rparr>,
      int (length d), None)"
  by (simp add: File_Seek_def fs_example_def len_def Let_def)

lemma loadSegments_example_corrupt:
  "loadSegments (fs_example [3, 1, 2, 3, 0, 2, 9]) log_example =
     Some (Returns
       (log_example
          \<lparr>segments := [seg_example],
           sfile := Some \<lparr>name = ''/wal/00000000000000000001'', flag = O_WRONLY, offset = 7\<rparr>\<rparr>,
        fs_example [3, 1, 2, 3, 0, 2, 9],
        Some (Wrapped ''failed to open last log segment''
          (Wrapped ''failed to load last log segment entries''
            (Wrapped ''failed to load binary entry from log segment'' ErrCorrupt)))))"
proof -
  have p: "Log.path log_example = ''/wal''" "segments log_example = []"
    by (simp_all add: log_example_def)
  have regs: "map (registered ''/wal'') [\<lparr>Name = ''00000000000000000001'', IsDir = False\<rparr>]
      = [seg_example]"
    by (simp add: registered_def seg_example_def Join_def decimal_value_def digit_value_def)
  have L: "loadSegmentEntries (fs_example [3, 1, 2, 3, 0, 2, 9]) seg_example =
      Some (Returns (seg_example,
        Some (Wrapped ''failed to load binary entry from log segment'' ErrCorrupt)))"
    by (rule loadSegmentEntries_example_corrupt)
  have path: "segment.path seg_example = ''/wal/00000000000000000001''"
    by (simp add: seg_example_def)
  have O: "openLastSegment (fs_example [3, 1, 2, 3, 0, 2, 9]) (log_example\<lparr>segments := [seg_example]\<rparr>) 0
    = Some (Returns
       (log_example
          \<lparr>segments := [seg_example],
           sfile := Some \<lparr>name = ''/wal/00000000000000000001'', flag = O_WRONLY, offset = 7\<rparr>\<rparr>,
        fs_example [3, 1, 2, 3, 0, 2, 9],
        Some (Wrapped ''failed to load last log segment entries''
            (Wrapped ''failed to load binary entry from log segment'' ErrCorrupt))))"
    unfolding openLastSegment_def
    by (simp add: L path os_OpenFile_example File_Seek_example)
  show ?thesis
    unfolding loadSegments_found [of log_example, OF p(2), unfolded p(1), OF ReadDir_example,
        unfolded segment_files_example regs, simplified]
    by (simp add: O)
qed

lemma log_example_fields:
  "Log.path log_example = ''/wal''" "segments log_example = []"
  "FilePerms (config log_example) = 416" "corrupt log_example = False"
  by (simp_all add: log_example_def DefaultConfig_def DefaultFilePerms_def)

lemma not_valid_example: "\<not> valid_file [3, 1, 2, 3, 0, 2, 9]"
  using loadSegmentEntries_scan [OF os_ReadFile_example, of "[3, 1, 2, 3, 0, 2, 9]"]
  by (simp add: loadSegmentEntries_example_corrupt)

lemma loadSegments_example_valid:
  "loadSegments (fs_example [3, 1, 2, 3, 0, 1, 9]) log_example =
     Some (Returns
       (log_example
          \<lparr>segments := [seg_example\<lparr>cbuf := [3, 1, 2, 3, 0, 1, 9],
             cpos := [\<lparr>pstart = 0, pend = 4\<rparr>, \<lparr>pstart = 4, pend = 5\<rparr>, \<lparr>pstart = 5, pend = 7\<rparr>]\<rparr>],
           sfile := Some \<lparr>name = ''/wal/00000000000000000001'', flag = O_WRONLY, offset = 7\<rparr>\<rparr>,
        fs_example [3, 1, 2, 3, 0, 1, 9], None))"
proof -
  have regs: "map (registered ''/wal'') [\<lparr>Name = ''00000000000000000001'', IsDir = False\<rparr>]
      = [seg_example]"
    by (simp add: registered_def seg_example_def Join_def decimal_value_def digit_value_def)
  have path: "segment.path seg_example = ''/wal/00000000000000000001''"
    by (simp add: seg_example_def)
  have O: "openLastSegment (fs_example [3, 1, 2, 3, 0, 1, 9]) (log_example\<lparr>segments := [seg_example]\<rparr>) 0
    = Some (Returns
       (log_example
          \<lparr>segments := [seg_example\<lparr>cbuf := [3, 1, 2, 3, 0, 1, 9],
             cpos := [\<lparr>pstart = 0, pend = 4\<rparr>, \<lparr>pstart = 4, pend = 5\<rparr>, \<lparr>pstart = 5, pend = 7\<rparr>]\<rparr>],
           sfile := Some \<lparr>name = ''/wal/00000000000000000001'', flag = O_WRONLY, offset = 7\<rparr>\<rparr>,
        fs_example [3, 1, 2, 3, 0, 1, 9], None))"
    unfolding openLastSegment_def
    by (simp add: loadSegmentEntries_example_valid path os_OpenFile_example File_Seek_example)
  show ?thesis
    unfolding loadSegments_found [of log_example, OF log_example_fields(2),
        unfolded log_example_fields(1), OF ReadDir_example,
        unfolded segment_files_example regs, simplified]
    by (simp add: O)
qed

lemma registered_segments:
  "map (registered ''/wal'')
     [\<lparr>Name = ''00000000000000000001'', IsDir = False\<rparr>,
      \<lparr>Name = ''00000000000000000002'', IsDir = False\<rparr>,
      \<lparr>Name = ''00000000000000000010'', IsDir = False\<rparr>]
   = [\<lparr>segment.path = ''/wal/00000000000000000001'', index = 1, cbuf = [], cpos = []\<rparr>,
      \<lparr>segment.path = ''/wal/00000000000000000002'', index = 2, cbuf = [], cpos = []\<rparr>,
      \<lparr>segment.path = ''/wal/00000000000000000010'', index = 10, cbuf = [], cpos = []\<rparr>]"
  by (simp add: registered_def Join_def decimal_value_def digit_value_def)

lemma scan_segments_tail:
  "loadSegmentEntries_loop [1, 7, 2, 8, 9] [] 0 =
     Some (Returns (Inr [\<lparr>pstart = 0, pend = 2\<rparr>, \<lparr>pstart = 2, pend = 5\<rparr>]))"
  by (simp add: eval_defs)

lemma valid_segments_tail: "valid_file [1, 7, 2, 8, 9]"
  using loop_scan [of 0 "[1, 7, 2, 8, 9]" "[]"]
  by (simp add: scan_segments_tail)

lemma os_OpenFile_segments:
  "os_OpenFile fs_segments ''/wal/00000000000000000010'' O_WRONLY perm =
     (Some \<lparr>name = ''/wal/00000000000000000010'', flag = O_WRONLY, offset = 0\<rparr>,
      fs_segments, None)"
  by (simp add: os_OpenFile_def fs_segments_def O_WRONLY_bits)

lemma File_Seek_segments:
  "File_Seek fs_segments
     (Some \<lparr>name = ''/wal/00000000000000000010'', flag = O_WRONLY, offset = 0\<rparr>) 0 2 =
     (Some \<lparr>name = ''/wal/00000000000000000010'', flag = O_WRONLY, offset = 5\<rparr>, 5, None)"
  by (simp add: File_Seek_def fs_segments_def len_def Let_def)

lemma os_ReadFile_segments:
  "os_ReadFile fs_segments ''/wal/00000000000000000010'' = ([1, 7, 2, 8, 9], None)"
  by (simp add: os_ReadFile_def fs_segments_def)

lemma loadSegments_segments:
  "loadSegments fs_segments log_example =
     Some (Returns
       (log_example
          \<lparr>segments :=
             [\<lparr>segment.path = ''/wal/00000000000000000001'', index = 1, cbuf = [], cpos = []\<rparr>,
              \<lparr>segment.path = ''/wal/00000000000000000002'', index = 2, cbuf = [], cpos = []\<rparr>,
              \<lparr>segment.path = ''/wal/00000000000000000010'', index = 10,
                 cbuf = [1, 7, 2, 8, 9],
                 cpos = [\<lparr>pstart = 0, pend = 2\<rparr>, \<lparr>pstart = 2, pend = 5\<rparr>]\<rparr>],
           sfile := Some \<lparr>name = ''/wal/00000000000000000010'', flag = O_WRONLY, offset = 5\<rparr>\<rparr>,
        fs_segments, None))"
proof -
  let ?p = "''/wal/00000000000000000010''"
  have o: "os_OpenFile fs_segments ?p O_WRONLY perm =
      (Some \<lparr>name = ?p, flag = O_WRONLY, offset = 0\<rparr>, fs_segments, None)" for perm
    by (simp add: os_OpenFile_def fs_segments_def O_WRONLY_bits)
  have s: "File_Seek fs_segments (Some \<lparr>name = ?p, flag = O_WRONLY, offset = 0\<rparr>) 0 2 =
      (Some \<lparr>name = ?p, flag = O_WRONLY, offset = 5\<rparr>, 5, None)"
    by (simp add: File_Seek_def fs_segments_def len_def Let_def)
  have r: "os_ReadFile fs_segments ?p = ([1, 7, 2, 8, 9], None)"
    by (simp add: os_ReadFile_def fs_segments_def)
  have L: "loadSegmentEntries fs_segments
      \<lparr>segment.path = ?p, index = 10, cbuf = [], cpos = []\<rparr> =
      Some (Returns (\<lparr>segment.path = ?p, index = 10, cbuf = [1, 7, 2, 8, 9],
                 cpos = [\<lparr>pstart = 0, pend = 2\<rparr>, \<lparr>pstart = 2, pend = 5\<rparr>]\<rparr>, None))"
    by (simp add: loadSegmentEntries_def r scan_segments_tail)
  show ?thesis
    unfolding loadSegments_found [of log_example, OF log_example_fields(2),
        unfolded log_example_fields(1), OF ReadDir_segments,
        unfolded segment_files_segments registered_segments, simplified]
    unfolding openLastSegment_def
    by (simp add: o s L)
qed

lemma loadSegments_empty:
  "loadSegments fs_empty log_example =
     Some (Returns
       (log_example
          \<lparr>segments := [seg_example],
           sfile := Some \<lparr>name = ''/wal/00000000000000000001'',
                           flag = O_CREATE OR O_RDWR OR O_TRUNC, offset = 0\<rparr>\<rparr>,
        fs_empty\<lparr>nodes := [(''/wal/00000000000000000001'', RegularFile [] 416), (''/wal'', Directory)]\<rparr>, None))"
proof -
  have o: "os_OpenFile fs_empty ''/wal/00000000000000000001'' (O_CREATE OR O_RDWR OR O_TRUNC) 416 =
      (Some \<lparr>name = ''/wal/00000000000000000001'', flag = O_CREATE OR O_RDWR OR O_TRUNC, offset = 0\<rparr>,
       fs_empty\<lparr>nodes := [(''/wal/00000000000000000001'', RegularFile [] 416), (''/wal'', Directory)]\<rparr>, None)"
    by (simp add: os_OpenFile_def fs_empty_def create_flags Dir_def)
  have sf: "segment_files [] = []" by (simp add: segment_files_def)
  show ?thesis
    unfolding loadSegments_none_found [of log_example, OF log_example_fields(2),
        unfolded log_example_fields(1), OF ReadDir_empty sf]
    by (simp add: createInitialSegment_def Let_def segmentName_1 log_example_fields o
        seg_example_def Join_def)
qed

subsection \<open>Recovery\<close>

text \<open>
  Claim C6: after every successful recovery of a new log (one with no segment registered
  yet), the log's segments are not empty and are sorted strictly ascending by starting
  index. \<open>os.ReadDir\<close> lists the directory sorted by file name, the scan keeps
  that order, and the names of segment files, all of 20 digits, are ordered as their
  indices.
\<close>

theorem loadSegments_sorted:
  assumes "segments l = []" and "loadSegments fs l = Some (Returns (l', fs', None))"
  shows "segments l' \<noteq> [] \<and> sorted_wrt (<) (map index (segments l'))"
  using assms by (rule loadSegments_sorted_lemma)

text \<open>
  Witness of C6: the directory with the segment files 10, 2 and 1 and a stray file;
  recovery registers the segments 1, 2 and 10 in this order.
\<close>

theorem loadSegments_sorted_witness:
  "segments log_example = []
   \<and> loadSegments fs_segments log_example =
     Some (Returns
       (log_example
          \<lparr>segments :=
             [\<lparr>segment.path = ''/wal/00000000000000000001'', index = 1, cbuf = [], cpos = []\<rparr>,
              \<lparr>segment.path = ''/wal/00000000000000000002'', index = 2, cbuf = [], cpos = []\<rparr>,
              \<lparr>segment.path = ''/wal/00000000000000000010'', index = 10,
                 cbuf = [1, 7, 2, 8, 9],
                 cpos = [\<lparr>pstart = 0, pend = 2\<rparr>, \<lparr>pstart = 2, pend = 5\<rparr>]\<rparr>],
           sfile := Some \<lparr>name = ''/wal/00000000000000000010'', flag = O_WRONLY, offset = 5\<rparr>\<rparr>,
        fs_segments, None))
   \<and> sorted_wrt (<) [1, 2, 10 :: uint64]"
  using loadSegments_sorted [OF log_example_fields(2) loadSegments_segments]
  by (simp add: log_example_fields loadSegments_segments)

text \<open>
  Claim C4, as stated, fails on the mode of the handle: \<open>openLastSegment\<close> opens
  the tail's file with \<open>O_WRONLY\<close>, write-only, not read-write. On the directory
  with one valid segment file, recovery succeeds and the flag of the tail's handle is
  \<open>O_WRONLY\<close>, which differs from \<open>O_RDWR\<close>.
\<close>

theorem loadSegments_tail_mode_counterexample:
  "loadSegments (fs_example [3, 1, 2, 3, 0, 1, 9]) log_example =
     Some (Returns
       (log_example
          \<lparr>segments := [seg_example\<lparr>cbuf := [3, 1, 2, 3, 0, 1, 9],
             cpos := [\<lparr>pstart = 0, pend = 4\<rparr>, \<lparr>pstart = 4, pend = 5\<rparr>, \<lparr>pstart = 5, pend = 7\<rparr>]\<rparr>],
           sfile := Some \<lparr>name = ''/wal/00000000000000000001'', flag = O_WRONLY, offset = 7\<rparr>\<rparr>,
        fs_example [3, 1, 2, 3, 0, 1, 9], None))
   \<and> O_WRONLY \<noteq> O_RDWR"
  by (simp add: loadSegments_example_valid) (simp add: O_WRONLY_def O_RDWR_def)

text \<open>
  Claim C4, amended: whenever the recovery of a new log finds at least one segment file,
  the last one in sorted order (the greatest name, and the greatest starting index)
  becomes the tail, and if its file is opened, seeked and read without error, with
  contents shorter than \<open>2 ^ 63\<close> as every Go slice is, then: the file is a regular
  file of the directory and was opened write-only, with \<open>O_WRONLY\<close>; the handle,
  which is the log's handle when recovery returns, is at the end of the file; and the
  scan of the file's full contents has run. If the contents are a valid file, recovery
  returns no error and the tail holds the contents and the positions that the scan
  records; the segments before the tail are as registered. If they are not, recovery
  returns the scan's error, which wraps \<open>ErrCorrupt\<close>, and all segments are as
  registered; the handle is still the write-only one at the end of the file. Recovery
  always returns in both cases and leaves the file system as it was.
\<close>

theorem loadSegments_opens_tail:
  assumes "segments l = []" and "os_ReadDir fs (Log.path l) = (files, None)"
    and "segment_files files \<noteq> []"
    and "os_OpenFile fs (Join (Log.path l) (Name (last (segment_files files)))) O_WRONLY
           (FilePerms (config l)) = (fh, fs1, None)"
    and "File_Seek fs1 fh 0 2 = (fh', pos, None)"
    and "os_ReadFile fs1 (Join (Log.path l) (Name (last (segment_files files)))) = (data, None)"
    and "length data < 2 ^ 63"
  shows "(\<forall>f \<in> set (segment_files files).
            Name f \<le> Name (last (segment_files files))
          \<and> index (registered (Log.path l) f)
              \<le> index (registered (Log.path l) (last (segment_files files))))
    \<and> (\<exists>m. map_of (nodes fs) (Join (Log.path l) (Name (last (segment_files files))))
             = Some (RegularFile data m))
    \<and> fs1 = fs
    \<and> fh = Some \<lparr>name = Join (Log.path l) (Name (last (segment_files files))),
                  flag = O_WRONLY, offset = 0\<rparr>
    \<and> fh' = Some \<lparr>name = Join (Log.path l) (Name (last (segment_files files))),
                   flag = O_WRONLY, offset = int (length data)\<rparr>
    \<and> pos = int (length data)
    \<and> (if valid_file data
        then \<exists>ps. loadSegmentEntries_loop data [] 0 = Some (Returns (Inr ps))
          \<and> loadSegments fs l =
              Some (Returns
                (l\<lparr>segments :=
                     map (registered (Log.path l)) (butlast (segment_files files))
                     @ [registered (Log.path l) (last (segment_files files))
                          \<lparr>cbuf := data, cpos := ps\<rparr>],
                   sfile := fh'\<rparr>,
                 fs, None))
        else loadSegmentEntries_loop data [] 0 =
               Some (Returns (Inl (Wrapped ''failed to load binary entry from log segment'' ErrCorrupt)))
          \<and> loadSegments fs l =
              Some (Returns
                (l\<lparr>segments := map (registered (Log.path l)) (segment_files files),
                   sfile := fh'\<rparr>,
                 fs,
                 Some (Wrapped ''failed to open last log segment''
                   (Wrapped ''failed to load last log segment entries''
                     (Wrapped ''failed to load binary entry from log segment'' ErrCorrupt))))))"
proof -
  let ?sf = "segment_files files"
  let ?p = "Join (Log.path l) (Name (last ?sf))"
  let ?e = "Wrapped ''failed to load binary entry from log segment'' ErrCorrupt"
  define regs where "regs = map (registered (Log.path l)) ?sf"
  define k where "k = length ?sf - 1"
  define tail where "tail = registered (Log.path l) (last ?sf)"
  let ?l1 = "l\<lparr>segments := regs\<rparr>"
  have k: "regs ! k = tail"
    using assms(3) by (simp add: last_conv_nth regs_def k_def tail_def)
  have p: "segment.path tail = ?p"
    by (simp add: tail_def registered_def)
  have kl: "k = length regs - 1" "regs \<noteq> []"
    using assms(3) by (simp_all add: regs_def k_def)
  have upd: "regs[k := x] = map (registered (Log.path l)) (butlast ?sf) @ [x]" for x
    unfolding kl(1) list_update_last [OF kl(2)] by (simp add: regs_def map_butlast)
  have same: "regs[k := tail] = regs"
    using k by (metis list_update_id)
  from os_OpenFile_WRONLY [OF assms(4)] have
    o: "fs1 = fs" "fh = Some \<lparr>name = ?p, flag = O_WRONLY, offset = 0\<rparr>"
    by simp_all
  from os_ReadFile_ok [OF assms(6)] obtain m where
    m: "map_of (nodes fs) ?p = Some (RegularFile data m)"
    unfolding o(1) by blast
  have s: "fh' = Some \<lparr>name = ?p, flag = O_WRONLY, offset = int (length data)\<rparr>"
      "pos = int (length data)"
    using File_Seek_end [OF assms(5) [unfolded o], of data m] m by simp_all
  have names: "Name f \<le> Name (last ?sf)" if "f \<in> set ?sf" for f
  proof -
    from that have "Name f \<in> set (map Name ?sf)" by simp
    from strict_sorted_last [OF segment_files_names_sorted [OF assms(2)] this]
    show ?thesis using assms(3) by (simp add: last_map)
  qed
  have indices: "index (registered (Log.path l) f) \<le> index (registered (Log.path l) (last ?sf))"
    if "f \<in> set ?sf" for f
  proof -
    let ?ix = "\<lambda>f. index (registered (Log.path l) f)"
    from that have "?ix f \<in> set (map ?ix ?sf)" by simp
    from strict_sorted_last [OF registered_index_sorted [OF assms(2)] this]
    show ?thesis using assms(3) by (simp add: last_map)
  qed
  have O: "openLastSegment fs ?l1 k =
      Some (Returns (l\<lparr>segments := regs[k := seg'], sfile := fh'\<rparr>, fs,
        map_option (Wrapped ''failed to load last log segment entries'') err))"
    if "loadSegmentEntries fs tail = Some (Returns (seg', err))" for seg' err
    using assms(4,5) that unfolding o(1) openLastSegment_def Let_def
    by (cases err) (simp_all add: k p)
  have F: "loadSegments fs l =
    (case openLastSegment fs ?l1 k of
       None \<Rightarrow> None
     | Some (Panics m) \<Rightarrow> Some (Panics m)
     | Some (Returns (l2, fs2, Some err)) \<Rightarrow>
         Some (Returns (l2, fs2, Some (Wrapped ''failed to open last log segment'' err)))
     | Some (Returns (l2, fs2, None)) \<Rightarrow> Some (Returns (l2, fs2, None)))"
    unfolding loadSegments_found [OF assms(1-3)] regs_def k_def ..
  have R: "os_ReadFile fs (segment.path tail) = (data, None)"
    using assms(6) unfolding o(1) p .
  have b: "(0::int) \<le> 0" "0 + int (length data) < 2 ^ 63"
    using int_length_bound [OF assms(7)] by simp_all
  have scan: "if valid_file data
        then \<exists>ps. loadSegmentEntries_loop data [] 0 = Some (Returns (Inr ps))
          \<and> loadSegments fs l =
              Some (Returns (l\<lparr>segments := map (registered (Log.path l)) (butlast ?sf)
                     @ [tail\<lparr>cbuf := data, cpos := ps\<rparr>], sfile := fh'\<rparr>, fs, None))
        else loadSegmentEntries_loop data [] 0 = Some (Returns (Inl ?e))
          \<and> loadSegments fs l =
              Some (Returns (l\<lparr>segments := regs, sfile := fh'\<rparr>, fs,
                 Some (Wrapped ''failed to open last log segment''
                   (Wrapped ''failed to load last log segment entries'' ?e))))"
  proof (cases "valid_file data")
    case True
    with loop_scan [OF b, of "[]"] obtain ps where
      ps: "loadSegmentEntries_loop data [] 0 = Some (Returns (Inr ps))" by auto
    have "loadSegmentEntries fs tail = Some (Returns (tail\<lparr>cbuf := data, cpos := ps\<rparr>, None))"
      by (simp add: loadSegmentEntries_def R ps)
    from O [OF this] have "loadSegments fs l =
        Some (Returns (l\<lparr>segments := regs[k := tail\<lparr>cbuf := data, cpos := ps\<rparr>], sfile := fh'\<rparr>, fs, None))"
      unfolding F by simp
    then show ?thesis using True ps by (simp only: upd) simp
  next
    case False
    with loop_scan [OF b, of "[]"] have
      c: "loadSegmentEntries_loop data [] 0 = Some (Returns (Inl ?e))" by auto
    have "loadSegmentEntries fs tail = Some (Returns (tail, Some ?e))"
      by (simp add: loadSegmentEntries_def R c)
    from O [OF this] have "loadSegments fs l =
        Some (Returns (l\<lparr>segments := regs[k := tail], sfile := fh'\<rparr>, fs,
          Some (Wrapped ''failed to open last log segment''
                   (Wrapped ''failed to load last log segment entries'' ?e))))"
      unfolding F by simp
    then show ?thesis using False c by (simp only: same) simp
  qed
  show ?thesis
    using names indices m o s scan unfolding regs_def tail_def by (intro conjI ballI) blast+
qed

text \<open>
  Witness of C4, amended, on both outcomes of the scan. In the directory with the segment
  files 10, 2 and 1, the tail is segment 10, opened write-only at offset 5, the length of
  its valid file. In the directory whose only segment file ends in a partial record, that
  file is opened write-only at offset 7, its length, and recovery returns the error of
  the scan.
\<close>

theorem loadSegments_opens_tail_witness:
  "segments log_example = []
   \<and> os_ReadDir fs_segments (Log.path log_example) =
     ([\<lparr>Name = ''00000000000000000001'', IsDir = False\<rparr>,
       \<lparr>Name = ''00000000000000000002'', IsDir = False\<rparr>,
       \<lparr>Name = ''00000000000000000010'', IsDir = False\<rparr>,
       \<lparr>Name = ''notes.txt'', IsDir = False\<rparr>], None)
   \<and> segment_files
       [\<lparr>Name = ''00000000000000000001'', IsDir = False\<rparr>,
        \<lparr>Name = ''00000000000000000002'', IsDir = False\<rparr>,
        \<lparr>Name = ''00000000000000000010'', IsDir = False\<rparr>,
        \<lparr>Name = ''notes.txt'', IsDir = False\<rparr>] \<noteq> []
   \<and> os_OpenFile fs_segments ''/wal/00000000000000000010'' O_WRONLY
         (FilePerms (config log_example)) =
       (Some \<lparr>name = ''/wal/00000000000000000010'', flag = O_WRONLY, offset = 0\<rparr>,
        fs_segments, None)
   \<and> File_Seek fs_segments
         (Some \<lparr>name = ''/wal/00000000000000000010'', flag = O_WRONLY, offset = 0\<rparr>) 0 2 =
       (Some \<lparr>name = ''/wal/00000000000000000010'', flag = O_WRONLY, offset = 5\<rparr>, 5, None)
   \<and> os_ReadFile fs_segments ''/wal/00000000000000000010'' = ([1, 7, 2, 8, 9], None)
   \<and> length [1, 7, 2, 8, 9 :: byte] < 2 ^ 63
   \<and> valid_file [1, 7, 2, 8, 9]
   \<and> loadSegments fs_segments log_example =
     Some (Returns
       (log_example
          \<lparr>segments :=
             [\<lparr>segment.path = ''/wal/00000000000000000001'', index = 1, cbuf = [], cpos = []\<rparr>,
              \<lparr>segment.path = ''/wal/00000000000000000002'', index = 2, cbuf = [], cpos = []\<rparr>,
              \<lparr>segment.path = ''/wal/00000000000000000010'', index = 10,
                 cbuf = [1, 7, 2, 8, 9],
                 cpos = [\<lparr>pstart = 0, pend = 2\<rparr>, \<lparr>pstart = 2, pend = 5\<rparr>]\<rparr>],
           sfile := Some \<lparr>name = ''/wal/00000000000000000010'', flag = O_WRONLY, offset = 5\<rparr>\<rparr>,
        fs_segments, None))
   \<and> os_ReadDir (fs_example [3, 1, 2, 3, 0, 2, 9]) (Log.path log_example) =
       ([\<lparr>Name = ''00000000000000000001'', IsDir = False\<rparr>], None)
   \<and> segment_files [\<lparr>Name = ''00000000000000000001'', IsDir = False\<rparr>] \<noteq> []
   \<and> os_OpenFile (fs_example [3, 1, 2, 3, 0, 2, 9]) ''/wal/00000000000000000001'' O_WRONLY
         (FilePerms (config log_example)) =
       (Some \<lparr>name = ''/wal/00000000000000000001'', flag = O_WRONLY, offset = 0\<rparr>,
        fs_example [3, 1, 2, 3, 0, 2, 9], None)
   \<and> File_Seek (fs_example [3, 1, 2, 3, 0, 2, 9])
         (Some \<lparr>name = ''/wal/00000000000000000001'', flag = O_WRONLY, offset = 0\<rparr>) 0 2 =
       (Some \<lparr>name = ''/wal/00000000000000000001'', flag = O_WRONLY, offset = 7\<rparr>, 7, None)
   \<and> os_ReadFile (fs_example [3, 1, 2, 3, 0, 2, 9]) ''/wal/00000000000000000001'' =
       ([3, 1, 2, 3, 0, 2, 9], None)
   \<and> length [3, 1, 2, 3, 0, 2, 9 :: byte] < 2 ^ 63
   \<and> \<not> valid_file [3, 1, 2, 3, 0, 2, 9]
   \<and> loadSegments (fs_example [3, 1, 2, 3, 0, 2, 9]) log_example =
     Some (Returns
       (log_example
          \<lparr>segments :=
             [\<lparr>segment.path = ''/wal/00000000000000000001'', index = 1, cbuf = [], cpos = []\<rparr>],
           sfile := Some \<lparr>name = ''/wal/00000000000000000001'', flag = O_WRONLY, offset = 7\<rparr>\<rparr>,
        fs_example [3, 1, 2, 3, 0, 2, 9],
        Some (Wrapped ''failed to open last log segment''
          (Wrapped ''failed to load last log segment entries''
            (Wrapped ''failed to load binary entry from log segment'' ErrCorrupt)))))"
proof -
  let ?fs = "fs_example [3, 1, 2, 3, 0, 2, 9]"
  let ?e = "\<lparr>Name = ''00000000000000000001'', IsDir = False\<rparr>"
  let ?es = "[\<lparr>Name = ''00000000000000000001'', IsDir = False\<rparr>,
       \<lparr>Name = ''00000000000000000002'', IsDir = False\<rparr>,
       \<lparr>Name = ''00000000000000000010'', IsDir = False\<rparr>,
       \<lparr>Name = ''notes.txt'', IsDir = False\<rparr>]"
  let ?p = "''/wal/00000000000000000001''"
  let ?q = "''/wal/00000000000000000010''"
  have q: "Join (Log.path log_example) (Name (last (segment_files ?es))) = ?q"
    by (simp add: segment_files_segments log_example_fields Join_def)
  have a2: "os_ReadDir fs_segments (Log.path log_example) = (?es, None)"
    by (simp add: log_example_fields ReadDir_segments)
  have a3: "segment_files ?es \<noteq> []" by (simp add: segment_files_segments)
  have a4: "os_OpenFile fs_segments (Join (Log.path log_example) (Name (last (segment_files ?es))))
      O_WRONLY (FilePerms (config log_example)) =
      (Some \<lparr>name = ?q, flag = O_WRONLY, offset = 0\<rparr>, fs_segments, None)"
    unfolding q by (rule os_OpenFile_segments)
  have a6: "os_ReadFile fs_segments (Join (Log.path log_example) (Name (last (segment_files ?es))))
      = ([1, 7, 2, 8, 9], None)"
    unfolding q by (rule os_ReadFile_segments)
  have a7: "length [1, 7, 2, 8, 9 :: byte] < 2 ^ 63" by simp
  have p: "Join (Log.path log_example) (Name (last (segment_files [?e]))) = ?p"
    by (simp add: segment_files_example log_example_fields Join_def)
  have b2: "os_ReadDir ?fs (Log.path log_example) = ([?e], None)"
    by (simp add: log_example_fields ReadDir_example)
  have b3: "segment_files [?e] \<noteq> []" by (simp add: segment_files_example)
  have b4: "os_OpenFile ?fs (Join (Log.path log_example) (Name (last (segment_files [?e]))))
      O_WRONLY (FilePerms (config log_example)) =
      (Some \<lparr>name = ?p, flag = O_WRONLY, offset = 0\<rparr>, ?fs, None)"
    unfolding p by (rule os_OpenFile_example)
  have b5: "File_Seek ?fs (Some \<lparr>name = ?p, flag = O_WRONLY, offset = 0\<rparr>) 0 2 =
      (Some \<lparr>name = ?p, flag = O_WRONLY, offset = 7\<rparr>, 7, None)"
    using File_Seek_example [of "[3, 1, 2, 3, 0, 2, 9]" O_WRONLY] by simp
  have b6: "os_ReadFile ?fs (Join (Log.path log_example) (Name (last (segment_files [?e]))))
      = ([3, 1, 2, 3, 0, 2, 9], None)"
    unfolding p using os_ReadFile_example [of "[3, 1, 2, 3, 0, 2, 9]"]
    by (simp add: seg_example_def)
  have b7: "length [3, 1, 2, 3, 0, 2, 9 :: byte] < 2 ^ 63" by simp
  have regs: "registered (Log.path log_example) ?e =
      \<lparr>segment.path = ?p, index = 1, cbuf = [], cpos = []\<rparr>"
    by (simp add: registered_def Join_def decimal_value_def digit_value_def log_example_fields)
  from loadSegments_opens_tail [OF log_example_fields(2) a2 a3 a4 File_Seek_segments a6 a7]
  have A: "loadSegments fs_segments log_example =
     Some (Returns
       (log_example
          \<lparr>segments :=
             [\<lparr>segment.path = ''/wal/00000000000000000001'', index = 1, cbuf = [], cpos = []\<rparr>,
              \<lparr>segment.path = ''/wal/00000000000000000002'', index = 2, cbuf = [], cpos = []\<rparr>,
              \<lparr>segment.path = ''/wal/00000000000000000010'', index = 10,
                 cbuf = [1, 7, 2, 8, 9],
                 cpos = [\<lparr>pstart = 0, pend = 2\<rparr>, \<lparr>pstart = 2, pend = 5\<rparr>]\<rparr>],
           sfile := Some \<lparr>name = ''/wal/00000000000000000010'', flag = O_WRONLY, offset = 5\<rparr>\<rparr>,
        fs_segments, None))"
    by (simp add: valid_segments_tail scan_segments_tail segment_files_segments
        registered_def Join_def decimal_value_def digit_value_def log_example_fields)
  from loadSegments_opens_tail [OF log_example_fields(2) b2 b3 b4 b5 b6 b7]
  have B: "loadSegments ?fs log_example =
     Some (Returns
       (log_example
          \<lparr>segments := [\<lparr>segment.path = ?p, index = 1, cbuf = [], cpos = []\<rparr>],
           sfile := Some \<lparr>name = ?p, flag = O_WRONLY, offset = 7\<rparr>\<rparr>,
        ?fs,
        Some (Wrapped ''failed to open last log segment''
          (Wrapped ''failed to load last log segment entries''
            (Wrapped ''failed to load binary entry from log segment'' ErrCorrupt)))))"
    by (simp add: not_valid_example segment_files_example regs)
  show ?thesis
    using a2 a3 a4 a6 b2 b3 b4 b5 b6 A B unfolding p q
    by (simp add: log_example_fields(2) File_Seek_segments valid_segments_tail not_valid_example)
qed

text \<open>
  Claim C3, as stated, fails on the flag: no statement of recovery assigns
  \<open>corrupt\<close>. On the directory whose only segment file ends in a partial record,
  recovery returns an error that wraps \<open>ErrCorrupt\<close>, and the log's
  \<open>corrupt\<close> flag is still \<open>false\<close>.
\<close>

theorem loadSegments_corrupt_flag_counterexample:
  "loadSegments (fs_example [3, 1, 2, 3, 0, 2, 9]) log_example =
     Some (Returns
       (log_example
          \<lparr>segments := [seg_example],
           sfile := Some \<lparr>name = ''/wal/00000000000000000001'', flag = O_WRONLY, offset = 7\<rparr>\<rparr>,
        fs_example [3, 1, 2, 3, 0, 2, 9],
        Some (Wrapped ''failed to open last log segment''
          (Wrapped ''failed to load last log segment entries''
            (Wrapped ''failed to load binary entry from log segment'' ErrCorrupt)))))
   \<and> corrupt (log_example
          \<lparr>segments := [seg_example],
           sfile := Some \<lparr>name = ''/wal/00000000000000000001'', flag = O_WRONLY, offset = 7\<rparr>\<rparr>)
       = False"
  by (simp add: loadSegments_example_corrupt log_example_fields)

text \<open>
  Claim C3, amended: if, in the recovery of a new log, the tail's file is opened, seeked
  and read without error and its contents are not a valid file, then recovery returns an
  error that wraps \<open>ErrCorrupt\<close>, and it leaves the log's \<open>corrupt\<close>
  flag as it was.
\<close>

theorem loadSegments_corrupt_tail:
  assumes "segments l = []" and "os_ReadDir fs (Log.path l) = (files, None)"
    and "segment_files files \<noteq> []"
    and "os_OpenFile fs (Join (Log.path l) (Name (last (segment_files files)))) O_WRONLY
           (FilePerms (config l)) = (fh, fs1, None)"
    and "File_Seek fs1 fh 0 2 = (fh', pos, None)"
    and "os_ReadFile fs1 (Join (Log.path l) (Name (last (segment_files files)))) = (data, None)"
    and "length data < 2 ^ 63" and "\<not> valid_file data"
  shows "\<exists>l' e. loadSegments fs l = Some (Returns (l', fs1, Some e))
    \<and> errors_Is e ErrCorrupt \<and> corrupt l' = corrupt l"
proof -
  let ?sf = "segment_files files"
  let ?p = "Join (Log.path l) (Name (last ?sf))"
  let ?e = "Wrapped ''failed to load binary entry from log segment'' ErrCorrupt"
  define regs where "regs = map (registered (Log.path l)) ?sf"
  define k where "k = length ?sf - 1"
  let ?regs = regs
  let ?k = k
  let ?l1 = "l\<lparr>segments := regs\<rparr>"
  have k: "?regs ! ?k = registered (Log.path l) (last ?sf)"
    using assms(3) by (simp add: last_conv_nth regs_def k_def)
  have p: "segment.path (?regs ! ?k) = ?p"
    by (simp only: k) (simp add: registered_def)
  have L: "loadSegmentEntries fs1 (?regs ! ?k) = Some (Returns (?regs ! ?k, Some ?e))"
    using loadSegmentEntries_scan [of fs1 "?regs ! ?k" data] assms(6,7,8) by (simp only: p) simp
  have "openLastSegment fs ?l1 ?k =
    Some (Returns (?l1\<lparr>segments := ?regs[?k := ?regs ! ?k], sfile := fh'\<rparr>, fs1,
      Some (Wrapped ''failed to load last log segment entries'' ?e)))"
    unfolding openLastSegment_def Let_def
    by (simp add: p assms(4,5) L)
  then have "loadSegments fs l =
    Some (Returns (?l1\<lparr>segments := ?regs[?k := ?regs ! ?k], sfile := fh'\<rparr>, fs1,
      Some (Wrapped ''failed to open last log segment''
        (Wrapped ''failed to load last log segment entries'' ?e))))"
    unfolding loadSegments_found [OF assms(1-3)] regs_def k_def by simp
  then show ?thesis by simp
qed

text \<open>
  Witness of C3, amended: the directory whose only segment file ends in a partial
  record.
\<close>

theorem loadSegments_corrupt_tail_witness:
  "segments log_example = []
   \<and> os_ReadDir (fs_example [3, 1, 2, 3, 0, 2, 9]) (Log.path log_example) =
       ([\<lparr>Name = ''00000000000000000001'', IsDir = False\<rparr>], None)
   \<and> segment_files [\<lparr>Name = ''00000000000000000001'', IsDir = False\<rparr>] \<noteq> []
   \<and> os_OpenFile (fs_example [3, 1, 2, 3, 0, 2, 9]) ''/wal/00000000000000000001'' O_WRONLY
         (FilePerms (config log_example)) =
       (Some \<lparr>name = ''/wal/00000000000000000001'', flag = O_WRONLY, offset = 0\<rparr>,
        fs_example [3, 1, 2, 3, 0, 2, 9], None)
   \<and> File_Seek (fs_example [3, 1, 2, 3, 0, 2, 9])
         (Some \<lparr>name = ''/wal/00000000000000000001'', flag = O_WRONLY, offset = 0\<rparr>) 0 2 =
       (Some \<lparr>name = ''/wal/00000000000000000001'', flag = O_WRONLY, offset = 7\<rparr>, 7, None)
   \<and> os_ReadFile (fs_example [3, 1, 2, 3, 0, 2, 9]) ''/wal/00000000000000000001'' =
       ([3, 1, 2, 3, 0, 2, 9], None)
   \<and> length [3, 1, 2, 3, 0, 2, 9 :: byte] < 2 ^ 63
   \<and> \<not> valid_file [3, 1, 2, 3, 0, 2, 9]
   \<and> (\<exists>l' e. loadSegments (fs_example [3, 1, 2, 3, 0, 2, 9]) log_example =
          Some (Returns (l', fs_example [3, 1, 2, 3, 0, 2, 9], Some e))
        \<and> errors_Is e ErrCorrupt \<and> corrupt l' = False)"
proof -
  let ?fs = "fs_example [3, 1, 2, 3, 0, 2, 9]"
  let ?e = "\<lparr>Name = ''00000000000000000001'', IsDir = False\<rparr>"
  let ?p = "''/wal/00000000000000000001''"
  have p: "Join (Log.path log_example) (Name (last (segment_files [?e]))) = ?p"
    by (simp add: segment_files_example log_example_fields Join_def)
  have h2: "os_ReadDir ?fs (Log.path log_example) = ([?e], None)"
    by (simp add: log_example_fields ReadDir_example)
  have h3: "segment_files [?e] \<noteq> []" by (simp add: segment_files_example)
  have h4: "os_OpenFile ?fs (Join (Log.path log_example) (Name (last (segment_files [?e]))))
      O_WRONLY (FilePerms (config log_example)) =
      (Some \<lparr>name = ?p, flag = O_WRONLY, offset = 0\<rparr>, ?fs, None)"
    unfolding p by (rule os_OpenFile_example)
  have h5: "File_Seek ?fs (Some \<lparr>name = ?p, flag = O_WRONLY, offset = 0\<rparr>) 0 2 =
      (Some \<lparr>name = ?p, flag = O_WRONLY, offset = 7\<rparr>, 7, None)"
    using File_Seek_example [of "[3, 1, 2, 3, 0, 2, 9]" O_WRONLY] by simp
  have h6: "os_ReadFile ?fs (Join (Log.path log_example) (Name (last (segment_files [?e]))))
      = ([3, 1, 2, 3, 0, 2, 9], None)"
    unfolding p using os_ReadFile_example [of "[3, 1, 2, 3, 0, 2, 9]"]
    by (simp add: seg_example_def)
  have h7: "length [3, 1, 2, 3, 0, 2, 9 :: byte] < 2 ^ 63" by simp
  from loadSegments_corrupt_tail [OF log_example_fields(2) h2 h3 h4 h5 h6 h7 not_valid_example]
  show ?thesis
    using h2 h3 h4 h5 h6 not_valid_example unfolding p
    by (simp add: log_example_fields)
qed

text \<open>
  Claim C7: if the recovery of a new log finds no segment file in the directory, it
  registers exactly one segment, with starting index 1, the name of 19 zeros and a 1, and
  an empty entry cache, and it opens the segment's file with
  \<open>O_CREATE|O_RDWR|O_TRUNC\<close> and the configured file permissions. Recovery returns
  the error of this call, wrapped, or no error; in this case the handle of the new file
  is the tail's handle, and the file, which did not exist, now exists, empty, with the
  configured permissions. In both cases the log's segments are not empty.
\<close>

theorem loadSegments_creates_initial:
  assumes "segments l = []" and "os_ReadDir fs (Log.path l) = (files, None)"
    and "segment_files files = []"
  shows "\<exists>fh fs' e.
      os_OpenFile fs (Join (Log.path l) ''00000000000000000001'')
        (O_CREATE OR O_RDWR OR O_TRUNC) (FilePerms (config l)) = (fh, fs', e)
    \<and> loadSegments fs l =
        Some (Returns
          (l\<lparr>segments := [\<lparr>segment.path = Join (Log.path l) ''00000000000000000001'',
                            index = 1, cbuf = [], cpos = []\<rparr>],
              sfile := (if e = None then fh else sfile l)\<rparr>,
           fs',
           map_option (\<lambda>x. Wrapped ''failed to create initial log segment''
                              (Wrapped ''failed to create initial log segment file'' x)) e))
    \<and> (e = None \<longrightarrow>
          fh = Some \<lparr>name = Join (Log.path l) ''00000000000000000001'',
                     flag = O_CREATE OR O_RDWR OR O_TRUNC, offset = 0\<rparr>
        \<and> map_of (nodes fs) (Join (Log.path l) ''00000000000000000001'') = None
        \<and> map_of (nodes fs') (Join (Log.path l) ''00000000000000000001'')
            = Some (RegularFile [] (FilePerms (config l))))"
proof -
  let ?p = "Join (Log.path l) ''00000000000000000001''"
  let ?flags = "O_CREATE OR O_RDWR OR O_TRUNC"
  obtain fh fs' e where O: "os_OpenFile fs ?p ?flags (FilePerms (config l)) = (fh, fs', e)"
    by (cases "os_OpenFile fs ?p ?flags (FilePerms (config l))")
  have "loadSegments fs l =
        Some (Returns
          (l\<lparr>segments := [\<lparr>segment.path = ?p, index = 1, cbuf = [], cpos = []\<rparr>],
              sfile := (if e = None then fh else sfile l)\<rparr>,
           fs',
           map_option (\<lambda>x. Wrapped ''failed to create initial log segment''
                              (Wrapped ''failed to create initial log segment file'' x)) e))"
    unfolding loadSegments_none_found [OF assms]
    by (cases e) (simp_all add: createInitialSegment_def Let_def segmentName_1 O assms(1))
  moreover have "e = None \<longrightarrow>
          fh = Some \<lparr>name = ?p, flag = ?flags, offset = 0\<rparr>
        \<and> map_of (nodes fs) ?p = None
        \<and> map_of (nodes fs') ?p = Some (RegularFile [] (FilePerms (config l)))"
    using os_OpenFile_create [OF assms(2,3)] O by blast
  ultimately show ?thesis using O by blast
qed

text \<open>
  Witness of C7: recovery on the empty directory creates the file of segment 1.
\<close>

theorem loadSegments_creates_initial_witness:
  "segments log_example = []
   \<and> os_ReadDir fs_empty (Log.path log_example) = ([], None)
   \<and> segment_files [] = []
   \<and> loadSegments fs_empty log_example =
     Some (Returns
       (log_example
          \<lparr>segments := [seg_example],
           sfile := Some \<lparr>name = ''/wal/00000000000000000001'',
                           flag = O_CREATE OR O_RDWR OR O_TRUNC, offset = 0\<rparr>\<rparr>,
        fs_empty\<lparr>nodes := [(''/wal/00000000000000000001'', RegularFile [] 416), (''/wal'', Directory)]\<rparr>, None))
   \<and> map_of (nodes (fs_empty\<lparr>nodes := [(''/wal/00000000000000000001'', RegularFile [] 416), (''/wal'', Directory)]\<rparr>))
        ''/wal/00000000000000000001'' = Some (RegularFile [] (FilePerms (config log_example)))"
proof -
  have h2: "os_ReadDir fs_empty (Log.path log_example) = ([], None)"
    by (simp add: log_example_fields ReadDir_empty)
  have h3: "segment_files [] = []" by (simp add: segment_files_def)
  from loadSegments_creates_initial [OF log_example_fields(2) h2 h3]
  show ?thesis
    using h2 h3 by (auto simp: loadSegments_empty log_example_fields Join_def)
qed

end
